theory Spec2Isabelle
  imports Complex_Main "HOL-Library.Word"
begin

section \<open>Governance proposal auditor: the decode-and-score core\<close>

text \<open>
  A shallow embedding of \<^verbatim>\<open>governance_auditor.js\<close>: the selector index built from an
  ABI, the weighted rule table, the per-call analyzer and the report that \<^verbatim>\<open>main\<close>
  prints. File reading, argument parsing and JSON printing are left out.

  JavaScript strings are sequences of UTF-16 code units; here they are HOL strings, whose
  characters stand for the code units \<open>0 .. 255\<close> (Latin-1). Solidity identifiers and hex
  strings are ASCII, so every name and selector of a real ABI is covered.
\<close>

subsection \<open>Selector derivation\<close>

text \<open>
  \<^verbatim>\<open>crypto.createHash('keccak256').update(sig).digest('hex')\<close>: the digest function is
  supplied by the crypto provider and is a parameter \<open>H\<close> of the model (from the signature
  string to the digest bytes). \<^verbatim>\<open>digest('hex')\<close> renders every byte as two lowercase
  hexadecimal digits.
\<close>

type_synonym byte = "8 word"
type_synonym digest = "string \<Rightarrow> byte list"

definition hex_digit :: "nat \<Rightarrow> char" where
  "hex_digit n = ''0123456789abcdef'' ! (n mod 16)"

definition hex_byte :: "byte \<Rightarrow> string" where
  "hex_byte b = [hex_digit (unat b div 16), hex_digit (unat b mod 16)]"

definition digest_hex :: "digest \<Rightarrow> string \<Rightarrow> string" where
  "digest_hex H s = concat (map hex_byte (H s))"

text \<open>\<^verbatim>\<open>s.slice(0, n)\<close> on a string, for \<open>n \<ge> 0\<close>: the first \<open>n\<close> code units, or all of a
  shorter string.\<close>

definition slice0 :: "nat \<Rightarrow> string \<Rightarrow> string" where
  "slice0 n s = take n s"

text \<open>\<^verbatim>\<open>xs.join(',')\<close>.\<close>

fun join_comma :: "string list \<Rightarrow> string" where
  "join_comma [] = []"
| "join_comma [x] = x"
| "join_comma (x # y # ys) = x @ '','' @ join_comma (y # ys)"

subsection \<open>ABI entries and the selector index\<close>

text \<open>
  An ABI entry as \<^verbatim>\<open>buildSelectorIndex\<close> reads it: the fields \<^verbatim>\<open>type\<close>,
  \<^verbatim>\<open>inputs\<close> and \<^verbatim>\<open>stateMutability\<close> may be missing (\<open>None\<close> is JavaScript's
  \<^verbatim>\<open>undefined\<close>).
\<close>

record abi_input =
  i_type :: string

record abi_entry =
  f_type :: "string option"
  f_name :: string
  f_inputs :: "abi_input list option"
  f_stateMutability :: "string option"

text \<open>The descriptor stored in the index: \<^verbatim>\<open>{ name, inputs, stateMutability }\<close>.\<close>

record descriptor =
  name :: string
  inputs :: "abi_input list"
  stateMutability :: string

type_synonym selector_index = "string \<rightharpoonup> descriptor"

text \<open>\<^verbatim>\<open>f.inputs || []\<close>: a missing list is the empty list.\<close>

definition inputs_or_empty :: "abi_entry \<Rightarrow> abi_input list" where
  "inputs_or_empty f = (case f_inputs f of None \<Rightarrow> [] | Some is \<Rightarrow> is)"

text \<open>\<^verbatim>\<open>f.stateMutability || 'nonpayable'\<close>: a missing or empty string is falsy.\<close>

definition mutability_or_default :: "abi_entry \<Rightarrow> string" where
  "mutability_or_default f =
     (case f_stateMutability f of
        None \<Rightarrow> ''nonpayable''
      | Some m \<Rightarrow> (if m = [] then ''nonpayable'' else m))"

definition sig_of :: "abi_entry \<Rightarrow> string" where
  "sig_of f = f_name f @ ''('' @ join_comma (map i_type (inputs_or_empty f)) @ '')''"

definition sel_of :: "digest \<Rightarrow> abi_entry \<Rightarrow> string" where
  "sel_of H f = ''0x'' @ slice0 8 (digest_hex H (sig_of f))"

definition descriptor_of :: "abi_entry \<Rightarrow> descriptor" where
  "descriptor_of f =
     \<lparr> name = f_name f, inputs = inputs_or_empty f,
       stateMutability = mutability_or_default f \<rparr>"

definition is_function :: "abi_entry \<Rightarrow> bool" where
  "is_function f = (f_type f = Some ''function'')"

text \<open>The body of the \<^verbatim>\<open>for (const f of abi)\<close> loop, on the index built so far.\<close>

definition index_step :: "digest \<Rightarrow> selector_index \<Rightarrow> abi_entry \<Rightarrow> selector_index" where
  "index_step H idx f =
     (if \<not> is_function f then idx
      else idx(sel_of H f \<mapsto> descriptor_of f))"

definition buildSelectorIndex :: "digest \<Rightarrow> abi_entry list \<Rightarrow> selector_index" where
  "buildSelectorIndex H abi = foldl (index_step H) Map.empty abi"

text \<open>A digest function for the examples: 32 zero bytes for every input, so that all
  signatures collide.\<close>

definition zero_digest :: digest where
  "zero_digest s = replicate 32 0"

subsection \<open>JavaScript numbers and the values of a JSON field\<close>

text \<open>
  A number is a double: not-a-number, an infinity, or a finite value, kept as the rational
  it denotes (the two zeros are not told apart: both are falsy and neither is \<open>> 0\<close>).
\<close>

datatype js_number = NaN | Finite rat | PosInfinity | NegInfinity

text \<open>The field \<^verbatim>\<open>value\<close> of a call after \<^verbatim>\<open>JSON.parse\<close>: missing, or a JSON primitive.\<close>

datatype js_value = JUndefined | JNull | JBool bool | JNumber js_number | JString string

fun floor_log2 :: "nat \<Rightarrow> nat" where
  "floor_log2 n = (if n < 2 then 0 else Suc (floor_log2 (n div 2)))"

declare floor_log2.simps [simp del]

text \<open>The exponent \<open>e\<close> with \<open>2 ^ e \<le> q < 2 ^ (e + 1)\<close>, for \<open>q > 0\<close>.\<close>

definition binary_exponent :: "rat \<Rightarrow> int" where
  "binary_exponent q =
     (let (n, d) = quotient_of q;
          k = int (floor_log2 (nat n)) - int (floor_log2 (nat d))
      in if 2 powi k \<le> q then k else k - 1)"

definition round_half_even :: "rat \<Rightarrow> int" where
  "round_half_even m =
     (let f = \<lfloor>m\<rfloor>; d = m - of_int f
      in if d < 1 / 2 then f
         else if 1 / 2 < d then f + 1
         else if even f then f else f + 1)"

text \<open>Rounding a real value to the nearest double, ties to even (53-bit significands,
  subnormals below \<open>2 ^ -1022\<close>, overflow to infinity).\<close>

definition round_double :: "rat \<Rightarrow> js_number" where
  "round_double q =
     (if q = 0 then Finite 0
      else
        let a = \<bar>q\<bar>;
            e = max (binary_exponent a) (- 1022);
            u = 2 powi (e - 52);
            r = of_int (round_half_even (a / u)) * u
        in if 2 ^ 1024 \<le> r then (if q < 0 then NegInfinity else PosInfinity)
           else Finite (if q < 0 then - r else r))"

text \<open>\<^verbatim>\<open>a / b\<close> on two finite doubles holding natural numbers, \<open>b\<close> not zero.\<close>

definition divide_nat :: "nat \<Rightarrow> nat \<Rightarrow> js_number" where
  "divide_nat a b = round_double (of_nat a / of_nat b)"

text \<open>\<^verbatim>\<open>x > 0\<close>.\<close>

fun greater_zero :: "js_number \<Rightarrow> bool" where
  "greater_zero NaN = False"
| "greater_zero (Finite q) = (0 < q)"
| "greater_zero PosInfinity = True"
| "greater_zero NegInfinity = False"

text \<open>Truthiness, as \<^verbatim>\<open>||\<close> tests it.\<close>

fun ToBoolean :: "js_value \<Rightarrow> bool" where
  "ToBoolean JUndefined = False"
| "ToBoolean JNull = False"
| "ToBoolean (JBool b) = b"
| "ToBoolean (JNumber n) = (n \<noteq> NaN \<and> n \<noteq> Finite 0)"
| "ToBoolean (JString s) = (s \<noteq> [])"

text \<open>\<^verbatim>\<open>v || 0\<close>.\<close>

definition or_zero :: "js_value \<Rightarrow> js_value" where
  "or_zero v = (if ToBoolean v then v else JNumber (Finite 0))"

subsubsection \<open>Strings to numbers\<close>

definition StrWhiteSpaceChar :: "char \<Rightarrow> bool" where
  "StrWhiteSpaceChar c = (of_char c \<in> {9, 10, 11, 12, 13, 32, 160 :: nat})"

definition trim :: "string \<Rightarrow> string" where
  "trim s = rev (dropWhile StrWhiteSpaceChar (rev (dropWhile StrWhiteSpaceChar s)))"

text \<open>The value of a digit in radix 2, 8, 10 or 16, if the character is one.\<close>

definition digit_of :: "nat \<Rightarrow> char \<Rightarrow> nat option" where
  "digit_of radix c =
     (let n = of_char c :: nat;
          v = (if 48 \<le> n \<and> n \<le> 57 then n - 48
               else if 97 \<le> n \<and> n \<le> 102 then n - 87
               else if 65 \<le> n \<and> n \<le> 70 then n - 55
               else 16)
      in if v < radix then Some v else None)"

definition is_digit :: "char \<Rightarrow> bool" where
  "is_digit c = (digit_of 10 c \<noteq> None)"

text \<open>A non-empty run of digits of the radix, as a number.\<close>

definition digits_value :: "nat \<Rightarrow> string \<Rightarrow> nat option" where
  "digits_value radix ds =
     (if ds = [] \<or> (\<exists>c \<in> set ds. digit_of radix c = None) then None
      else Some (foldl (\<lambda>a c. radix * a + the (digit_of radix c)) 0 ds))"

text \<open>\<^verbatim>\<open>0x\<close>, \<^verbatim>\<open>0o\<close> and \<^verbatim>\<open>0b\<close> literals (no sign).\<close>

definition NonDecimalIntegerLiteral :: "string \<Rightarrow> nat option" where
  "NonDecimalIntegerLiteral s =
     (case s of
        z # p # ds \<Rightarrow>
          if z \<noteq> CHR ''0'' then None
          else if p = CHR ''x'' \<or> p = CHR ''X'' then digits_value 16 ds
          else if p = CHR ''o'' \<or> p = CHR ''O'' then digits_value 8 ds
          else if p = CHR ''b'' \<or> p = CHR ''B'' then digits_value 2 ds
          else None
      | _ \<Rightarrow> None)"

text \<open>\<^verbatim>\<open>e\<close> or \<^verbatim>\<open>E\<close> with a signed integer; no exponent part counts as exponent 0.\<close>

definition ExponentPart :: "string \<Rightarrow> int option" where
  "ExponentPart s =
     (case s of
        [] \<Rightarrow> Some 0
      | x # t \<Rightarrow>
          if x \<noteq> CHR ''e'' \<and> x \<noteq> CHR ''E'' then None
          else (case t of
                  [] \<Rightarrow> None
                | y # ds \<Rightarrow>
                    if y = CHR ''+'' then map_option int (digits_value 10 ds)
                    else if y = CHR ''-'' then map_option (\<lambda>n. - int n) (digits_value 10 ds)
                    else map_option int (digits_value 10 t)))"

text \<open>Digits with an optional fraction and exponent: the mathematical value.\<close>

definition StrUnsignedDecimalLiteral :: "string \<Rightarrow> rat option" where
  "StrUnsignedDecimalLiteral s =
     (let ip = takeWhile is_digit s;
          r1 = dropWhile is_digit s;
          t = (case r1 of [] \<Rightarrow> [] | x # xs \<Rightarrow> if x = CHR ''.'' then xs else []);
          fp = takeWhile is_digit t;
          r2 = (case r1 of [] \<Rightarrow> [] | x # xs \<Rightarrow> if x = CHR ''.'' then dropWhile is_digit t else r1)
      in if ip = [] \<and> fp = [] then None
         else (case ExponentPart r2 of
                 None \<Rightarrow> None
               | Some ex \<Rightarrow>
                   Some (of_nat (the (digits_value 10 (CHR ''0'' # ip @ fp)))
                         * 10 powi (ex - int (length fp)))))"

definition unsigned_number :: "string \<Rightarrow> js_number" where
  "unsigned_number s =
     (if s = ''Infinity'' then PosInfinity
      else (case StrUnsignedDecimalLiteral s of
              None \<Rightarrow> NaN
            | Some q \<Rightarrow> round_double q))"

fun negate :: "js_number \<Rightarrow> js_number" where
  "negate NaN = NaN"
| "negate (Finite q) = Finite (- q)"
| "negate PosInfinity = NegInfinity"
| "negate NegInfinity = PosInfinity"

definition StringToNumber :: "string \<Rightarrow> js_number" where
  "StringToNumber s =
     (let t = trim s
      in if t = [] then Finite 0
         else (case NonDecimalIntegerLiteral t of
                 Some n \<Rightarrow> round_double (of_nat n)
               | None \<Rightarrow>
                   (case t of
                      [] \<Rightarrow> NaN
                    | x # u \<Rightarrow>
                        if x = CHR ''+'' then unsigned_number u
                        else if x = CHR ''-'' then negate (unsigned_number u)
                        else unsigned_number t)))"

text \<open>\<^verbatim>\<open>Number(v)\<close>.\<close>

fun Number :: "js_value \<Rightarrow> js_number" where
  "Number JUndefined = NaN"
| "Number JNull = Finite 0"
| "Number (JBool b) = Finite (if b then 1 else 0)"
| "Number (JNumber n) = n"
| "Number (JString s) = StringToNumber s"

subsection \<open>Case conversion and the patterns of the rule table\<close>

text \<open>\<^verbatim>\<open>s.toLowerCase()\<close>, per code unit: the letters \<open>A .. Z\<close> and the capital
  letters of Latin-1 (\<open>0xC0 .. 0xDE\<close> without the multiplication sign) move up by 32.\<close>

definition lower_unit :: "char \<Rightarrow> char" where
  "lower_unit c =
     (let n = of_char c :: nat
      in if (65 \<le> n \<and> n \<le> 90) \<or> (192 \<le> n \<and> n \<le> 222 \<and> n \<noteq> 215)
         then char_of (n + 32) else c)"

definition toLowerCase :: "string \<Rightarrow> string" where
  "toLowerCase s = map lower_unit s"

text \<open>
  How a pattern with the flag \<^verbatim>\<open>i\<close> (and without \<^verbatim>\<open>u\<close>) compares characters: both
  sides are mapped to the code unit of their simple uppercase form. In Latin-1, \<open>a .. z\<close>
  and \<open>0xE0 .. 0xFE\<close> (without the division sign) move down by 32, \<open>0xFF\<close> maps to
  \<open>0x178\<close> and the micro sign to \<open>0x39C\<close>; nothing outside ASCII maps into ASCII.
\<close>

definition Canonicalize :: "char \<Rightarrow> nat" where
  "Canonicalize c =
     (let n = of_char c :: nat
      in if (97 \<le> n \<and> n \<le> 122) \<or> (224 \<le> n \<and> n \<le> 254 \<and> n \<noteq> 247) then n - 32
         else if n = 255 then 376
         else if n = 181 then 924
         else n)"

text \<open>Line feed and carriage return: the characters that \<^verbatim>\<open>.\<close> does not match.\<close>

definition LineTerminator :: "char \<Rightarrow> bool" where
  "LineTerminator c = (of_char c = (10 :: nat) \<or> of_char c = (13 :: nat))"

text \<open>The patterns that occur in the table: literal text, \<^verbatim>\<open>.*\<close>, sequence and
  alternative.\<close>

datatype regex = Lit string | DotStar | Seq regex regex | Alt regex regex

text \<open>
  Backtracking match at the start of the input: the list of what can remain after a
  match, in the order in which the alternatives are tried (\<^verbatim>\<open>.*\<close> is greedy).
\<close>

fun rmatch :: "regex \<Rightarrow> string \<Rightarrow> string list" where
  "rmatch (Lit w) s =
     (if length w \<le> length s \<and> map Canonicalize (take (length w) s) = map Canonicalize w
      then [drop (length w) s] else [])"
| "rmatch DotStar s =
     map (\<lambda>k. drop k s) (rev [0 ..< Suc (length (takeWhile (\<lambda>c. \<not> LineTerminator c) s))])"
| "rmatch (Seq a b) s = concat (map (rmatch b) (rmatch a s))"
| "rmatch (Alt a b) s = rmatch a s @ rmatch b s"

text \<open>\<^verbatim>\<open>regex.test(s)\<close> for a pattern without the flags \<^verbatim>\<open>g\<close> and \<^verbatim>\<open>y\<close>: a match
  at some position of the input.\<close>

definition test :: "regex \<Rightarrow> string \<Rightarrow> bool" where
  "test r s = (\<exists>k \<in> set [0 ..< Suc (length s)]. rmatch r (drop k s) \<noteq> [])"

subsection \<open>The rule table\<close>

record rule =
  rule_id :: string
  regex :: regex
  weight :: nat
  desc :: string

definition rule_delegatecall :: rule where
  "rule_delegatecall =
     \<lparr> rule_id = ''delegatecall'', regex = Lit ''delegatecall'', weight = 40,
       desc = ''Potential delegatecall use'' \<rparr>"

definition rule_upgrade_proxy :: rule where
  "rule_upgrade_proxy =
     \<lparr> rule_id = ''upgrade-proxy'',
       regex = Seq (Lit ''upgrade'') (Seq DotStar (Alt (Lit ''implementation'') (Lit ''proxy''))),
       weight = 25, desc = ''Proxy upgrade'' \<rparr>"

definition rule_role_admin :: rule where
  "rule_role_admin =
     \<lparr> rule_id = ''role-admin'',
       regex = Seq (Alt (Lit ''grant'') (Lit ''revoke'')) (Seq DotStar (Lit ''role'')),
       weight = 15, desc = ''Role change'' \<rparr>"

definition rule_pause :: rule where
  "rule_pause =
     \<lparr> rule_id = ''pause'', regex = Alt (Lit ''pause'') (Lit ''unpause''), weight = 10,
       desc = ''Pausing contract'' \<rparr>"

definition rule_mint :: rule where
  "rule_mint =
     \<lparr> rule_id = ''mint'', regex = Lit ''mint'', weight = 20, desc = ''Token minting'' \<rparr>"

definition RULES :: "rule list" where
  "RULES = [rule_delegatecall, rule_upgrade_proxy, rule_role_admin, rule_pause, rule_mint]"

subsection \<open>The call analyzer\<close>

record queued_call =
  call_to :: string
  call_data :: string
  call_value :: js_value

record analysis_result =
  risk :: nat
  reasons :: "string list"
  selector :: string

datatype error = TypeError

text \<open>
  What \<^verbatim>\<open>selectorIndex[sel]\<close> can be. The index is a plain object (\<^verbatim>\<open>const idx = {}\<close>),
  so a key that is not its own property is looked up in \<^verbatim>\<open>Object.prototype\<close>: this
  finds the built-in methods (function objects, each with a \<^verbatim>\<open>name\<close>) and, under
  \<^verbatim>\<open>__proto__\<close>, the prototype object itself.
\<close>

datatype meta = Undefined | Descriptor descriptor | Builtin string | ObjectPrototype

text \<open>The \<^verbatim>\<open>name\<close> of the function stored in \<^verbatim>\<open>Object.prototype\<close> under a key.\<close>

definition prototype_method :: "string \<Rightarrow> string option" where
  "prototype_method k =
     (if k = ''constructor'' then Some ''Object''
      else if k \<in> set [''hasOwnProperty'', ''isPrototypeOf'', ''propertyIsEnumerable'',
                        ''toLocaleString'', ''toString'', ''valueOf'',
                        ''__defineGetter__'', ''__defineSetter__'',
                        ''__lookupGetter__'', ''__lookupSetter__'']
      then Some k else None)"

definition get_property :: "selector_index \<Rightarrow> string \<Rightarrow> meta" where
  "get_property idx k =
     (case idx k of
        Some d \<Rightarrow> Descriptor d
      | None \<Rightarrow>
          if k = ''__proto__'' then ObjectPrototype
          else (case prototype_method k of Some n \<Rightarrow> Builtin n | None \<Rightarrow> Undefined))"

text \<open>\<^verbatim>\<open>meta.name\<close> and \<^verbatim>\<open>meta.stateMutability\<close> (\<open>None\<close> for \<^verbatim>\<open>undefined\<close>), for a
  \<^verbatim>\<open>meta\<close> that is an object.\<close>

fun meta_name :: "meta \<Rightarrow> string option" where
  "meta_name (Descriptor d) = Some (name d)"
| "meta_name (Builtin n) = Some n"
| "meta_name _ = None"

fun meta_stateMutability :: "meta \<Rightarrow> string option" where
  "meta_stateMutability (Descriptor d) = Some (stateMutability d)"
| "meta_stateMutability _ = None"

text \<open>\<^verbatim>\<open>res.risk += w; res.reasons.push(d)\<close>.\<close>

definition add_risk :: "nat \<Rightarrow> string \<Rightarrow> analysis_result \<Rightarrow> analysis_result" where
  "add_risk w d res = res\<lparr> risk := risk res + w, reasons := reasons res @ [d] \<rparr>"

text \<open>The body of \<^verbatim>\<open>for (const rule of RULES)\<close>.\<close>

definition rule_step :: "string \<Rightarrow> analysis_result \<Rightarrow> rule \<Rightarrow> analysis_result" where
  "rule_step nm res rule =
     (if test (regex rule) nm then add_risk (weight rule) (desc rule) res else res)"

text \<open>The last statement before the return:
  \<^verbatim>\<open>if (Number(call.value || 0) > 0) { res.risk += 5; res.reasons.push('ETH value attached'); }\<close>.\<close>

definition value_attached :: "queued_call \<Rightarrow> bool" where
  "value_attached call = greater_zero (Number (or_zero (call_value call)))"

definition value_check :: "queued_call \<Rightarrow> analysis_result \<Rightarrow> analysis_result" where
  "value_check call res =
     (if value_attached call then add_risk 5 ''ETH value attached'' res else res)"

definition analyzeCall :: "selector_index \<Rightarrow> queued_call \<Rightarrow> error + analysis_result" where
  "analyzeCall selectorIndex call =
     (let res = \<lparr> risk = 0, reasons = [], selector = slice0 10 (call_data call) \<rparr>;
          sel = selector res;
          meta = get_property selectorIndex sel
      in if meta = Undefined
         then Inr (value_check call (add_risk 10 ''Unknown selector (not in ABI)'' res))
         else (case meta_name meta of
                 None \<Rightarrow> Inl TypeError
               | Some n \<Rightarrow>
                   let nm = toLowerCase n;
                       res1 = foldl (rule_step nm) res RULES;
                       res2 = (if meta_stateMutability meta = Some ''payable''
                               then add_risk 5 ''Payable call'' res1 else res1)
                   in Inr (value_check call res2)))"

subsection \<open>The report\<close>

text \<open>A result with \<^verbatim>\<open>r.target = c.to\<close> set, as \<^verbatim>\<open>main\<close> stores it.\<close>

record item = analysis_result +
  target :: string

definition set_target :: "analysis_result \<Rightarrow> string \<Rightarrow> item" where
  "set_target r t =
     \<lparr> risk = risk r, reasons = reasons r, selector = selector r, target = t \<rparr>"

record report =
  avgRisk :: string
  items :: "item list"

text \<open>The loop \<^verbatim>\<open>for (const c of callsJson)\<close>; an exception thrown by
  \<^verbatim>\<open>analyzeCall\<close> ends it.\<close>

fun analyze_loop :: "selector_index \<Rightarrow> queued_call list \<Rightarrow> item list \<Rightarrow> error + item list" where
  "analyze_loop idx [] results = Inr results"
| "analyze_loop idx (c # cs) results =
     (case analyzeCall idx c of
        Inl e \<Rightarrow> Inl e
      | Inr r \<Rightarrow> analyze_loop idx cs (results @ [set_target r (call_to c)]))"

text \<open>The decimal digits of a natural number.\<close>

definition digit_char :: "nat \<Rightarrow> char" where
  "digit_char d = char_of (48 + d mod 10)"

fun digits_of :: "nat \<Rightarrow> string" where
  "digits_of n = (if n < 10 then [digit_char n] else digits_of (n div 10) @ [digit_char n])"

declare digits_of.simps [simp del]

text \<open>
  \<^verbatim>\<open>x.toFixed(2)\<close> for a finite \<open>x\<close> with \<open>\<bar>x\<bar> < 10 ^ 21\<close>: the integer \<open>n\<close> nearest to
  \<open>100 * \<bar>x\<bar>\<close> (the larger one of two), its digits padded to three, and a point before
  the last two.
\<close>

definition toFixed2_finite :: "rat \<Rightarrow> string" where
  "toFixed2_finite x =
     (let s = (if x < 0 then ''-'' else []);
          n = nat \<lfloor>\<bar>x\<bar> * 100 + 1 / 2\<rfloor>;
          m = (if n = 0 then ''0'' else digits_of n);
          m' = (if length m \<le> 2 then replicate (3 - length m) (CHR ''0'') @ m else m);
          k = length m'
      in s @ take (k - 2) m' @ ''.'' @ drop (k - 2) m')"

fun toFixed2 :: "js_number \<Rightarrow> string" where
  "toFixed2 NaN = ''NaN''"
| "toFixed2 PosInfinity = ''Infinity''"
| "toFixed2 NegInfinity = ''-Infinity''"
| "toFixed2 (Finite x) = toFixed2_finite x"

text \<open>
  The last three statements of \<^verbatim>\<open>main\<close> before printing. The sum of the risks is kept
  exact: every risk is at most 120 and an array has fewer than \<open>2 ^ 32\<close> elements, so the
  sum stays below \<open>2 ^ 53\<close>, where doubles add without rounding.
\<close>

definition report_of :: "item list \<Rightarrow> report" where
  "report_of results =
     (let totalRisk = foldl (\<lambda>a b. a + risk b) 0 results;
          avg = (if length results \<noteq> 0
                 then toFixed2 (divide_nat totalRisk (length results))
                 else ''0.00'')
      in \<lparr> avgRisk = avg, items = results \<rparr>)"

text \<open>\<^verbatim>\<open>main\<close>, from the parsed ABI and call queue to the report object.\<close>

definition main :: "digest \<Rightarrow> abi_entry list \<Rightarrow> queued_call list \<Rightarrow> error + report" where
  "main H abiJson callsJson =
     (let selectorIndex = buildSelectorIndex H abiJson
      in case analyze_loop selectorIndex callsJson [] of
           Inl e \<Rightarrow> Inl e
         | Inr results \<Rightarrow> Inr (report_of results))"

subsection \<open>Sample ABI entries\<close>

text \<open>The function of the specification's scenario, \<^verbatim>\<open>mint(address,uint256)\<close>, and a
  second, payable function with another signature.\<close>

definition mint_entry :: abi_entry where
  "mint_entry =
     \<lparr> f_type = Some ''function'', f_name = ''mint'',
       f_inputs = Some [\<lparr> i_type = ''address'' \<rparr>, \<lparr> i_type = ''uint256'' \<rparr>],
       f_stateMutability = Some ''nonpayable'' \<rparr>"

definition mintTo_entry :: abi_entry where
  "mintTo_entry =
     \<lparr> f_type = Some ''function'', f_name = ''mintTo'',
       f_inputs = Some [\<lparr> i_type = ''address'' \<rparr>],
       f_stateMutability = Some ''payable'' \<rparr>"

text \<open>Functions whose names are used in the examples of the rule table.\<close>

definition proxyUpgrade_entry :: abi_entry where
  "proxyUpgrade_entry =
     \<lparr> f_type = Some ''function'', f_name = ''proxyUpgrade'', f_inputs = Some [],
       f_stateMutability = Some ''nonpayable'' \<rparr>"

definition upgradeProxyTo_entry :: abi_entry where
  "upgradeProxyTo_entry =
     \<lparr> f_type = Some ''function'', f_name = ''upgradeProxyTo'',
       f_inputs = Some [\<lparr> i_type = ''address'' \<rparr>], f_stateMutability = None \<rparr>"

definition unpauseAndMint_entry :: abi_entry where
  "unpauseAndMint_entry =
     \<lparr> f_type = Some ''function'', f_name = ''unpauseAndMint'', f_inputs = None,
       f_stateMutability = Some ''payable'' \<rparr>"

text \<open>A name with a line feed between the two words.\<close>

definition upgradeLineProxy_entry :: abi_entry where
  "upgradeLineProxy_entry =
     \<lparr> f_type = Some ''function'', f_name = ''upgrade'' @ [CHR 0x0A] @ ''proxy'',
       f_inputs = Some [], f_stateMutability = Some ''nonpayable'' \<rparr>"

section \<open>Properties of the selector index\<close>

subsection \<open>Hexadecimal rendering\<close>

lemma hex_digit_in: "hex_digit n \<in> set ''0123456789abcdef''"
proof -
  have "n mod 16 < length ''0123456789abcdef''" by simp
  then show ?thesis unfolding hex_digit_def by (rule nth_mem)
qed

lemma length_hex_byte: "length (hex_byte b) = 2"
  by (simp add: hex_byte_def)

lemma set_hex_byte: "set (hex_byte b) \<subseteq> set ''0123456789abcdef''"
  using hex_digit_in [of "unat b div 16"] hex_digit_in [of "unat b mod 16"]
  by (simp add: hex_byte_def)

lemma length_concat_hex: "length (concat (map hex_byte bs)) = 2 * length bs"
  by (induction bs) (simp_all add: length_hex_byte)

lemma set_concat_hex: "set (concat (map hex_byte bs)) \<subseteq> set ''0123456789abcdef''"
  using set_hex_byte by (induction bs) auto

lemma length_digest_hex: "length (digest_hex H s) = 2 * length (H s)"
  by (simp add: digest_hex_def length_concat_hex)

lemma set_digest_hex: "set (digest_hex H s) \<subseteq> set ''0123456789abcdef''"
  unfolding digest_hex_def by (rule set_concat_hex)

lemma length_sel_of:
  assumes "4 \<le> length (H (sig_of f))"
  shows "length (sel_of H f) = 10"
  using assms by (simp add: sel_of_def slice0_def length_digest_hex)

lemma sel_of_shape:
  "take 2 (sel_of H f) = ''0x'' \<and> set (drop 2 (sel_of H f)) \<subseteq> set ''0123456789abcdef''"
proof -
  have "set (take 8 (digest_hex H (sig_of f))) \<subseteq> set (digest_hex H (sig_of f))"
    by (rule set_take_subset)
  with set_digest_hex [of H "sig_of f"] show ?thesis
    by (simp add: sel_of_def slice0_def)
qed

subsection \<open>Keys and entries of the index\<close>

lemma foldl_index_snoc:
  "foldl (index_step H) m (abi @ [f]) = index_step H (foldl (index_step H) m abi) f"
  by simp

lemma dom_index_step:
  "dom (index_step H m f) = dom m \<union> (if is_function f then {sel_of H f} else {})"
  by (simp add: index_step_def)

lemma dom_foldl_index:
  "dom (foldl (index_step H) m abi) = dom m \<union> sel_of H ` {f \<in> set abi. is_function f}"
  by (induction abi arbitrary: m) (auto simp: dom_index_step)

lemma dom_buildSelectorIndex:
  "dom (buildSelectorIndex H abi) = sel_of H ` {f \<in> set abi. is_function f}"
  by (simp add: buildSelectorIndex_def dom_foldl_index)

text \<open>The entry under a key is the descriptor of the last function of the ABI that
  derives this key.\<close>

lemma case_snoc:
  "(case ys @ [f] of [] \<Rightarrow> a | g # gs \<Rightarrow> Some (descriptor_of (last (g # gs))))
     = Some (descriptor_of f)"
  by (cases ys) simp_all

lemma foldl_index_lookup:
  "foldl (index_step H) m abi k =
     (case filter (\<lambda>f. is_function f \<and> sel_of H f = k) abi of
        [] \<Rightarrow> m k
      | g # gs \<Rightarrow> Some (descriptor_of (last (g # gs))))"
proof (induction abi rule: rev_induct)
  case Nil
  show ?case by simp
next
  case (snoc f abi)
  show ?case
  proof (cases "is_function f \<and> sel_of H f = k")
    case True
    with case_snoc [where ys = "filter (\<lambda>f. is_function f \<and> sel_of H f = k) abi" and f = f and a = "m k"]
    show ?thesis
      by (simp add: index_step_def)
  next
    case False
    then have step: "index_step H (foldl (index_step H) m abi) f k = foldl (index_step H) m abi k"
      by (auto simp: index_step_def)
    from False have flt: "filter (\<lambda>f. is_function f \<and> sel_of H f = k) (abi @ [f])
        = filter (\<lambda>f. is_function f \<and> sel_of H f = k) abi"
      by auto
    from snoc.IH show ?thesis
      by (simp only: foldl_index_snoc step flt)
  qed
qed

lemma buildSelectorIndex_last:
  assumes "is_function g"
    and "\<forall>h \<in> set post. is_function h \<longrightarrow> sel_of H h \<noteq> sel_of H g"
  shows "buildSelectorIndex H (pre @ [g] @ post) (sel_of H g) = Some (descriptor_of g)"
proof -
  have "filter (\<lambda>f. is_function f \<and> sel_of H f = sel_of H g) post = []"
    using assms(2) by (auto simp: filter_empty_conv)
  then show ?thesis
    using assms(1)
    by (simp add: buildSelectorIndex_def foldl_index_lookup index_step_def)
qed

text \<open>
  Claim C6. With a digest of at least four bytes (Keccak-256 has 32), every key of the
  index built from any ABI has exactly 10 characters: \<^verbatim>\<open>0x\<close> and then 8 lowercase
  hexadecimal digits.
\<close>

theorem index_keys_are_selectors:
  assumes "\<forall>s. 4 \<le> length (H s)"
    and "k \<in> dom (buildSelectorIndex H abi)"
  shows "length k = 10 \<and> take 2 k = ''0x'' \<and> set (drop 2 k) \<subseteq> set ''0123456789abcdef''"
proof -
  from assms(2) obtain f where "k = sel_of H f"
    by (auto simp: dom_buildSelectorIndex)
  with assms(1) length_sel_of [of H f] sel_of_shape [of H f] show ?thesis
    by simp
qed

lemma zero_digest_length: "\<forall>s. 4 \<le> length (zero_digest s)"
  by (simp add: zero_digest_def)

lemma sel_of_zero_digest: "sel_of zero_digest f = ''0x00000000''"
proof -
  have "take 8 (concat (replicate 32 ''00'')) = ''00000000''"
    by code_simp
  then show ?thesis
    by (simp add: sel_of_def slice0_def digest_hex_def zero_digest_def hex_byte_def hex_digit_def)
qed

theorem index_keys_are_selectors_witness:
  "(\<forall>s. 4 \<le> length (zero_digest s)) \<and>
   ''0x00000000'' \<in> dom (buildSelectorIndex zero_digest [mint_entry]) \<and>
   length ''0x00000000'' = 10 \<and> take 2 ''0x00000000'' = ''0x'' \<and>
   set (drop 2 ''0x00000000'') \<subseteq> set ''0123456789abcdef''"
proof -
  have "mint_entry \<in> {f \<in> set [mint_entry]. is_function f}"
    by (simp add: is_function_def mint_entry_def)
  then have "sel_of zero_digest mint_entry \<in> dom (buildSelectorIndex zero_digest [mint_entry])"
    unfolding dom_buildSelectorIndex by (rule imageI)
  then have k: "''0x00000000'' \<in> dom (buildSelectorIndex zero_digest [mint_entry])"
    by (simp add: sel_of_zero_digest)
  from index_keys_are_selectors [OF zero_digest_length k] zero_digest_length k
  show ?thesis by blast
qed

text \<open>
  Claim C7. When two functions of the ABI with different signatures derive the same
  selector, the entry written for the later one replaces the earlier one: looking the
  selector up gives the descriptor of the function declared last with it.
\<close>

theorem later_descriptor_wins:
  assumes "is_function f" and "is_function g"
    and "sig_of f \<noteq> sig_of g"
    and "sel_of H f = sel_of H g"
    and "\<forall>h \<in> set post. is_function h \<longrightarrow> sel_of H h \<noteq> sel_of H g"
  shows "buildSelectorIndex H (pre @ [f] @ mid @ [g] @ post) (sel_of H f) = Some (descriptor_of g)"
proof -
  have "buildSelectorIndex H ((pre @ [f] @ mid) @ [g] @ post) (sel_of H g) = Some (descriptor_of g)"
    using assms(2,5) by (rule buildSelectorIndex_last)
  with assms(4) show ?thesis by simp
qed

theorem later_descriptor_wins_witness:
  "is_function mint_entry \<and> is_function mintTo_entry \<and>
   sig_of mint_entry \<noteq> sig_of mintTo_entry \<and>
   sel_of zero_digest mint_entry = sel_of zero_digest mintTo_entry \<and>
   buildSelectorIndex zero_digest [mint_entry, mintTo_entry] (sel_of zero_digest mint_entry)
     = Some (descriptor_of mintTo_entry) \<and>
   descriptor_of mintTo_entry \<noteq> descriptor_of mint_entry"
proof -
  have f: "is_function mint_entry" and g: "is_function mintTo_entry"
    by (simp_all add: is_function_def mint_entry_def mintTo_entry_def)
  have d: "sig_of mint_entry \<noteq> sig_of mintTo_entry"
    by (simp add: sig_of_def mint_entry_def mintTo_entry_def inputs_or_empty_def)
  have c: "sel_of zero_digest mint_entry = sel_of zero_digest mintTo_entry"
    by (simp add: sel_of_zero_digest)
  have n: "\<forall>h \<in> set []. is_function h \<longrightarrow> sel_of zero_digest h \<noteq> sel_of zero_digest mintTo_entry"
    by simp
  have ne: "descriptor_of mintTo_entry \<noteq> descriptor_of mint_entry"
    by (simp add: descriptor_of_def mint_entry_def mintTo_entry_def)
  from later_descriptor_wins [OF f g d c n, of "[]" "[]"] f g d c ne
  show ?thesis by simp
qed

section \<open>Properties of the call analyzer\<close>

subsection \<open>The three outcomes of the lookup\<close>

lemma foldl_rule_step:
  "foldl (rule_step nm) res rs =
     res\<lparr> risk := risk res + sum_list (map weight (filter (\<lambda>\<rho>. test (regex \<rho>) nm) rs)),
          reasons := reasons res @ map desc (filter (\<lambda>\<rho>. test (regex \<rho>) nm) rs) \<rparr>"
  by (induction rs arbitrary: res) (simp_all add: rule_step_def add_risk_def)

lemma value_check_fields:
  "risk (value_check call res) = risk res + (if value_attached call then 5 else 0)"
  "reasons (value_check call res) =
     reasons res @ (if value_attached call then [''ETH value attached''] else [])"
  "selector (value_check call res) = selector res"
  by (simp_all add: value_check_def add_risk_def)

lemma analyzeCall_Undefined:
  assumes "get_property idx (slice0 10 (call_data call)) = Undefined"
  shows "analyzeCall idx call =
     Inr (value_check call
       \<lparr> risk = 10, reasons = [''Unknown selector (not in ABI)''],
         selector = slice0 10 (call_data call) \<rparr>)"
  using assms by (simp add: analyzeCall_def add_risk_def)

lemma analyzeCall_named:
  assumes "meta_name (get_property idx (slice0 10 (call_data call))) = Some n"
  shows "analyzeCall idx call =
     Inr (value_check call
       \<lparr> risk = sum_list (map weight (filter (\<lambda>\<rho>. test (regex \<rho>) (toLowerCase n)) RULES))
           + (if meta_stateMutability (get_property idx (slice0 10 (call_data call))) = Some ''payable''
              then 5 else 0),
         reasons = map desc (filter (\<lambda>\<rho>. test (regex \<rho>) (toLowerCase n)) RULES)
           @ (if meta_stateMutability (get_property idx (slice0 10 (call_data call))) = Some ''payable''
              then [''Payable call''] else []),
         selector = slice0 10 (call_data call) \<rparr>)"
proof -
  from assms have "get_property idx (slice0 10 (call_data call)) \<noteq> Undefined"
    by auto
  with assms show ?thesis
    by (simp add: analyzeCall_def foldl_rule_step add_risk_def Let_def)
qed

lemma analyzeCall_ObjectPrototype:
  assumes "get_property idx (slice0 10 (call_data call)) = ObjectPrototype"
  shows "analyzeCall idx call = Inl TypeError"
  using assms by (simp add: analyzeCall_def)

lemma meta_cases:
  "m = Undefined \<or> m = ObjectPrototype \<or> (\<exists>n. meta_name m = Some n)"
  by (cases m) simp_all

lemma get_property_own: "idx k = Some d \<Longrightarrow> get_property idx k = Descriptor d"
  by (simp add: get_property_def)

text \<open>The analyzer throws exactly when the selector is the inherited key
  \<^verbatim>\<open>__proto__\<close>.\<close>

lemma analyzeCall_throws_iff:
  "(\<exists>e. analyzeCall idx call = Inl e) \<longleftrightarrow>
     idx (slice0 10 (call_data call)) = None \<and> slice0 10 (call_data call) = ''__proto__''"
proof -
  let ?m = "get_property idx (slice0 10 (call_data call))"
  have "(\<exists>e. analyzeCall idx call = Inl e) \<longleftrightarrow> ?m = ObjectPrototype"
    using meta_cases [of ?m] analyzeCall_Undefined [of idx call]
      analyzeCall_ObjectPrototype [of idx call] analyzeCall_named [of idx call]
    by (cases ?m) auto
  also have "\<dots> \<longleftrightarrow> idx (slice0 10 (call_data call)) = None \<and> slice0 10 (call_data call) = ''__proto__''"
    by (simp add: get_property_def split: option.split)
  finally show ?thesis .
qed

subsection \<open>Selectors that are not keys of the index\<close>

lemma get_property_Undefined_iff:
  assumes "length k \<le> 10"
  shows "get_property idx k = Undefined \<longleftrightarrow>
     idx k = None \<and> k \<noteq> ''toString'' \<and> k \<noteq> ''valueOf'' \<and> k \<noteq> ''__proto__''"
proof (cases "idx k")
  case (Some d)
  then show ?thesis by (simp add: get_property_def)
next
  case None
  have long: "k \<noteq> ''constructor''" "k \<noteq> ''hasOwnProperty''" "k \<noteq> ''isPrototypeOf''"
    "k \<noteq> ''propertyIsEnumerable''" "k \<noteq> ''toLocaleString''"
    "k \<noteq> ''__defineGetter__''" "k \<noteq> ''__defineSetter__''"
    "k \<noteq> ''__lookupGetter__''" "k \<noteq> ''__lookupSetter__''"
    using assms by auto
  show ?thesis
    using None long by (simp add: get_property_def prototype_method_def)
qed

text \<open>A selector that is neither a key of the index nor one of the three inherited names
  of at most 10 characters scores the unknown-selector penalty.\<close>

lemma unknown_selector_scored:
  assumes "idx (slice0 10 (call_data call)) = None"
    and "slice0 10 (call_data call) \<noteq> ''toString''"
    and "slice0 10 (call_data call) \<noteq> ''valueOf''"
    and "slice0 10 (call_data call) \<noteq> ''__proto__''"
  shows "analyzeCall idx call =
     Inr (value_check call
       \<lparr> risk = 10, reasons = [''Unknown selector (not in ABI)''],
         selector = slice0 10 (call_data call) \<rparr>)"
proof -
  have "length (slice0 10 (call_data call)) \<le> 10"
    by (simp add: slice0_def)
  from get_property_Undefined_iff [OF this, of idx] assms
  have "get_property idx (slice0 10 (call_data call)) = Undefined"
    by simp
  then show ?thesis by (rule analyzeCall_Undefined)
qed

text \<open>In particular, every call whose data starts with \<^verbatim>\<open>0x\<close>.\<close>

lemma unknown_hex_selector_scored:
  assumes "idx (slice0 10 (call_data call)) = None"
    and "take 2 (call_data call) = ''0x''"
  shows "analyzeCall idx call =
     Inr (value_check call
       \<lparr> risk = 10, reasons = [''Unknown selector (not in ABI)''],
         selector = slice0 10 (call_data call) \<rparr>)"
proof -
  have "take 2 (slice0 10 (call_data call)) = ''0x''"
    using assms(2) by (simp add: slice0_def)
  then have "slice0 10 (call_data call) \<noteq> ''toString''"
    "slice0 10 (call_data call) \<noteq> ''valueOf''"
    "slice0 10 (call_data call) \<noteq> ''__proto__''"
    by auto
  with assms(1) show ?thesis by (rule unknown_selector_scored)
qed

lemma rules_on_mint: "filter (\<lambda>\<rho>. test (regex \<rho>) ''mint'') RULES = [rule_mint]"
  by code_simp

subsection \<open>Scenario and order of the contributions\<close>

lemma descs_of_rules:
  "set (map desc (filter P RULES)) \<subseteq>
     {''Potential delegatecall use'', ''Proxy upgrade'', ''Role change'', ''Pausing contract'',
      ''Token minting''}"
  by (auto simp: RULES_def rule_delegatecall_def rule_upgrade_proxy_def rule_role_admin_def
      rule_pause_def rule_mint_def)

lemma rule_descs_not_fixed:
  "''ETH value attached'' \<notin> set (map desc (filter P RULES))"
  "''Payable call'' \<notin> set (map desc (filter P RULES))"
  using descs_of_rules [of P] by auto

text \<open>
  Claim C1. The ABI contains \<^verbatim>\<open>mint(address,uint256)\<close>, nonpayable, and no later
  function of the ABI takes over its selector. A call whose data begins with the selector
  derived from \<^verbatim>\<open>"mint(address,uint256)"\<close> and whose value is 0 has risk 20 and the
  reasons \<^verbatim>\<open>["Token minting"]\<close>; with value 1 it has risk 25 and the reasons
  \<^verbatim>\<open>["Token minting", "ETH value attached"]\<close>.
\<close>

theorem mint_scenario:
  assumes "4 \<le> length (H ''mint(address,uint256)'')"
    and "\<forall>h \<in> set post. is_function h \<longrightarrow> sel_of H h \<noteq> sel_of H mint_entry"
  shows "sig_of mint_entry = ''mint(address,uint256)'' \<and>
    analyzeCall (buildSelectorIndex H (pre @ [mint_entry] @ post))
        \<lparr> call_to = t, call_data = sel_of H mint_entry @ rest, call_value = JNumber (Finite 0) \<rparr>
      = Inr \<lparr> risk = 20, reasons = [''Token minting''], selector = sel_of H mint_entry \<rparr> \<and>
    analyzeCall (buildSelectorIndex H (pre @ [mint_entry] @ post))
        \<lparr> call_to = t, call_data = sel_of H mint_entry @ rest, call_value = JNumber (Finite 1) \<rparr>
      = Inr \<lparr> risk = 25, reasons = [''Token minting'', ''ETH value attached''],
              selector = sel_of H mint_entry \<rparr>"
proof -
  let ?idx = "buildSelectorIndex H (pre @ [mint_entry] @ post)"
  let ?sel = "sel_of H mint_entry"
  have sig: "sig_of mint_entry = ''mint(address,uint256)''"
    by (simp add: sig_of_def mint_entry_def inputs_or_empty_def)
  have fn: "is_function mint_entry"
    by (simp add: is_function_def mint_entry_def)
  have len: "length ?sel = 10"
    using assms(1) sig by (simp add: length_sel_of)
  have own: "?idx ?sel = Some (descriptor_of mint_entry)"
    using fn assms(2) by (rule buildSelectorIndex_last)
  have nm: "toLowerCase (name (descriptor_of mint_entry)) = ''mint''"
    by (simp add: descriptor_of_def mint_entry_def toLowerCase_def lower_unit_def)
  have mut: "stateMutability (descriptor_of mint_entry) \<noteq> ''payable''"
    by (simp add: descriptor_of_def mint_entry_def mutability_or_default_def)
  have res: "analyzeCall ?idx \<lparr> call_to = t, call_data = ?sel @ rest, call_value = v \<rparr>
      = Inr (value_check \<lparr> call_to = t, call_data = ?sel @ rest, call_value = v \<rparr>
          \<lparr> risk = 20, reasons = [''Token minting''], selector = ?sel \<rparr>)" for v
  proof -
    let ?call = "\<lparr> call_to = t, call_data = ?sel @ rest, call_value = v \<rparr>"
    have sl: "slice0 10 (?sel @ rest) = ?sel"
      using len by (simp add: slice0_def)
    have gp: "get_property ?idx ?sel = Descriptor (descriptor_of mint_entry)"
      using own by (rule get_property_own)
    then have "meta_name (get_property ?idx (slice0 10 (call_data ?call)))
        = Some (name (descriptor_of mint_entry))"
      by (simp add: sl)
    from analyzeCall_named [OF this] gp mut show ?thesis
      by (simp add: sl nm rules_on_mint rule_mint_def)
  qed
  have v0: "\<not> value_attached \<lparr> call_to = t, call_data = ?sel @ rest, call_value = JNumber (Finite 0) \<rparr>"
    by (simp add: value_attached_def or_zero_def)
  have v1: "value_attached \<lparr> call_to = t, call_data = ?sel @ rest, call_value = JNumber (Finite 1) \<rparr>"
    by (simp add: value_attached_def or_zero_def)
  show ?thesis
    unfolding res using sig v0 v1 by (simp add: value_check_def add_risk_def)
qed

theorem mint_scenario_witness:
  "4 \<le> length (zero_digest ''mint(address,uint256)'') \<and>
   sel_of zero_digest mint_entry = ''0x00000000'' \<and>
   analyzeCall (buildSelectorIndex zero_digest [mint_entry])
       \<lparr> call_to = ''0x01'', call_data = ''0x00000000ffff'', call_value = JNumber (Finite 0) \<rparr>
     = Inr \<lparr> risk = 20, reasons = [''Token minting''], selector = ''0x00000000'' \<rparr> \<and>
   analyzeCall (buildSelectorIndex zero_digest [mint_entry])
       \<lparr> call_to = ''0x01'', call_data = ''0x00000000ffff'', call_value = JNumber (Finite 1) \<rparr>
     = Inr \<lparr> risk = 25, reasons = [''Token minting'', ''ETH value attached''],
             selector = ''0x00000000'' \<rparr>"
proof -
  have l: "4 \<le> length (zero_digest ''mint(address,uint256)'')"
    by (simp add: zero_digest_def)
  have n: "\<forall>h \<in> set []. is_function h \<longrightarrow> sel_of zero_digest h \<noteq> sel_of zero_digest mint_entry"
    by simp
  from mint_scenario [OF l n, of "[]" "''0x01''" "''ffff''"] l
  show ?thesis by (simp add: sel_of_zero_digest)
qed

text \<open>
  Claim C5. Whenever the analyzer returns a result, its risk is the sum of the
  contributions and its reasons are the contributions in the order in which they were
  applied: either the unknown-selector reason (10), or the descriptions of all the rules
  that match the lowercased name, in the order of the table and with the sum of their
  weights, then the payability reason (5); and last the value-attached reason (5).
\<close>

theorem contributions_in_order:
  assumes "analyzeCall idx call = Inr r"
  shows "(get_property idx (slice0 10 (call_data call)) = Undefined \<and>
          reasons r = [''Unknown selector (not in ABI)'']
            @ (if value_attached call then [''ETH value attached''] else []) \<and>
          risk r = 10 + (if value_attached call then 5 else 0))
       \<or> (\<exists>n. meta_name (get_property idx (slice0 10 (call_data call))) = Some n \<and>
          reasons r = map desc (filter (\<lambda>\<rho>. test (regex \<rho>) (toLowerCase n)) RULES)
            @ (if meta_stateMutability (get_property idx (slice0 10 (call_data call))) = Some ''payable''
               then [''Payable call''] else [])
            @ (if value_attached call then [''ETH value attached''] else []) \<and>
          risk r = sum_list (map weight (filter (\<lambda>\<rho>. test (regex \<rho>) (toLowerCase n)) RULES))
            + (if meta_stateMutability (get_property idx (slice0 10 (call_data call))) = Some ''payable''
               then 5 else 0)
            + (if value_attached call then 5 else 0))"
proof -
  let ?m = "get_property idx (slice0 10 (call_data call))"
  from meta_cases [of ?m] consider
    (unknown) "?m = Undefined" | (proto) "?m = ObjectPrototype" | (named) n where "meta_name ?m = Some n"
    by blast
  then show ?thesis
  proof cases
    case unknown
    from analyzeCall_Undefined [OF this] assms
    have "r = value_check call \<lparr> risk = 10, reasons = [''Unknown selector (not in ABI)''],
        selector = slice0 10 (call_data call) \<rparr>"
      by simp
    with unknown show ?thesis
      by (simp add: value_check_fields)
  next
    case proto
    from analyzeCall_ObjectPrototype [OF this] assms show ?thesis by simp
  next
    case named
    from analyzeCall_named [OF this] assms
    have "r = value_check call
       \<lparr> risk = sum_list (map weight (filter (\<lambda>\<rho>. test (regex \<rho>) (toLowerCase n)) RULES))
           + (if meta_stateMutability ?m = Some ''payable'' then 5 else 0),
         reasons = map desc (filter (\<lambda>\<rho>. test (regex \<rho>) (toLowerCase n)) RULES)
           @ (if meta_stateMutability ?m = Some ''payable'' then [''Payable call''] else []),
         selector = slice0 10 (call_data call) \<rparr>"
      by simp
    with named show ?thesis
      by (simp add: value_check_fields)
  qed
qed

theorem contributions_in_order_witness:
  "analyzeCall (buildSelectorIndex zero_digest [unpauseAndMint_entry])
      \<lparr> call_to = ''0x01'', call_data = ''0x00000000'', call_value = JNumber (Finite 1) \<rparr>
    = Inr \<lparr> risk = 40,
            reasons = [''Pausing contract'', ''Token minting'', ''Payable call'', ''ETH value attached''],
            selector = ''0x00000000'' \<rparr>"
proof -
  have a: "analyzeCall (buildSelectorIndex zero_digest [unpauseAndMint_entry])
      \<lparr> call_to = ''0x01'', call_data = ''0x00000000'', call_value = JNumber (Finite 1) \<rparr>
    = Inr \<lparr> risk = 40,
            reasons = [''Pausing contract'', ''Token minting'', ''Payable call'', ''ETH value attached''],
            selector = ''0x00000000'' \<rparr>"
    by code_simp
  from contributions_in_order [OF a] a show ?thesis by simp
qed

text \<open>What the analyzer returns is the value check applied to a result that does not
  depend on the value of the call.\<close>

lemma analyzeCall_base:
  assumes "analyzeCall idx call = Inr r"
  shows "\<exists>base. (\<forall>c. call_data c = call_data call \<longrightarrow> analyzeCall idx c = Inr (value_check c base))
           \<and> ''ETH value attached'' \<notin> set (reasons base)"
proof -
  let ?m = "get_property idx (slice0 10 (call_data call))"
  from meta_cases [of ?m] consider
    (unknown) "?m = Undefined" | (proto) "?m = ObjectPrototype" | (named) n where "meta_name ?m = Some n"
    by blast
  then show ?thesis
  proof cases
    case unknown
    let ?base = "\<lparr> risk = 10, reasons = [''Unknown selector (not in ABI)''],
        selector = slice0 10 (call_data call) \<rparr>"
    have "analyzeCall idx c = Inr (value_check c ?base)" if "call_data c = call_data call" for c
      using analyzeCall_Undefined [of idx c] unknown that by simp
    moreover have "''ETH value attached'' \<notin> set (reasons ?base)"
      by simp
    ultimately show ?thesis by blast
  next
    case proto
    from analyzeCall_ObjectPrototype [OF this] assms show ?thesis by simp
  next
    case named
    let ?base = "\<lparr> risk = sum_list (map weight (filter (\<lambda>\<rho>. test (regex \<rho>) (toLowerCase n)) RULES))
           + (if meta_stateMutability ?m = Some ''payable'' then 5 else 0),
         reasons = map desc (filter (\<lambda>\<rho>. test (regex \<rho>) (toLowerCase n)) RULES)
           @ (if meta_stateMutability ?m = Some ''payable'' then [''Payable call''] else []),
         selector = slice0 10 (call_data call) \<rparr>"
    have "analyzeCall idx c = Inr (value_check c ?base)" if "call_data c = call_data call" for c
      using analyzeCall_named [of idx c n] named that by simp
    moreover have "''ETH value attached'' \<notin> set (reasons ?base)"
      using rule_descs_not_fixed(1) [of "\<lambda>\<rho>. test (regex \<rho>) (toLowerCase n)"] by simp
    ultimately show ?thesis by blast
  qed
qed

lemma missing_value_not_attached: "\<not> value_attached (call\<lparr> call_value := JUndefined \<rparr>)"
  by (simp add: value_attached_def or_zero_def)

text \<open>
  Claim C4. Whatever the lookup of the selector gave, the result for a call is the result
  for the same call without a value, with 5 added to the risk and
  \<^verbatim>\<open>"ETH value attached"\<close> appended to the reasons when the value, coerced to a number,
  is greater than 0, and unchanged otherwise; the reason occurs in the result exactly in
  the first case.
\<close>

theorem value_check_independent:
  assumes "analyzeCall idx call = Inr r"
  shows "\<exists>r0. analyzeCall idx (call\<lparr> call_value := JUndefined \<rparr>) = Inr r0 \<and>
           (if value_attached call
            then r = r0\<lparr> risk := risk r0 + 5, reasons := reasons r0 @ [''ETH value attached''] \<rparr>
            else r = r0) \<and>
           (''ETH value attached'' \<in> set (reasons r) \<longleftrightarrow> value_attached call)"
proof -
  from analyzeCall_base [OF assms] obtain base where
    b: "\<And>c. call_data c = call_data call \<Longrightarrow> analyzeCall idx c = Inr (value_check c base)"
    and n: "''ETH value attached'' \<notin> set (reasons base)"
    by blast
  have "analyzeCall idx (call\<lparr> call_value := JUndefined \<rparr>)
      = Inr (value_check (call\<lparr> call_value := JUndefined \<rparr>) base)"
    by (rule b) simp
  then have r0: "analyzeCall idx (call\<lparr> call_value := JUndefined \<rparr>) = Inr base"
    using missing_value_not_attached [of call] by (simp add: value_check_def)
  from b [of call] assms have r: "r = value_check call base"
    by simp
  show ?thesis
    using r0 n by (auto simp: r value_check_def add_risk_def)
qed

theorem value_check_independent_witness:
  "analyzeCall (buildSelectorIndex zero_digest [mint_entry])
      \<lparr> call_to = ''0x01'', call_data = ''0xdeadbeef'', call_value = JString ''12'' \<rparr>
    = Inr \<lparr> risk = 15, reasons = [''Unknown selector (not in ABI)'', ''ETH value attached''],
            selector = ''0xdeadbeef'' \<rparr> \<and>
   value_attached \<lparr> call_to = ''0x01'', call_data = ''0xdeadbeef'', call_value = JString ''12'' \<rparr> \<and>
   analyzeCall (buildSelectorIndex zero_digest [mint_entry])
      \<lparr> call_to = ''0x01'', call_data = ''0xdeadbeef'', call_value = JUndefined \<rparr>
    = Inr \<lparr> risk = 10, reasons = [''Unknown selector (not in ABI)''], selector = ''0xdeadbeef'' \<rparr>"
proof -
  have a: "analyzeCall (buildSelectorIndex zero_digest [mint_entry])
      \<lparr> call_to = ''0x01'', call_data = ''0xdeadbeef'', call_value = JString ''12'' \<rparr>
    = Inr \<lparr> risk = 15, reasons = [''Unknown selector (not in ABI)'', ''ETH value attached''],
            selector = ''0xdeadbeef'' \<rparr>"
    by code_simp
  from value_check_independent [OF a]
  have v: "value_attached \<lparr> call_to = ''0x01'', call_data = ''0xdeadbeef'', call_value = JString ''12'' \<rparr>"
    by auto
  have c: "analyzeCall (buildSelectorIndex zero_digest [mint_entry])
      \<lparr> call_to = ''0x01'', call_data = ''0xdeadbeef'', call_value = JUndefined \<rparr>
    = Inr \<lparr> risk = 10, reasons = [''Unknown selector (not in ABI)''], selector = ''0xdeadbeef'' \<rparr>"
    by code_simp
  from a v c show ?thesis
    by simp
qed

text \<open>
  Claim C10. When the selector of a call is a key of the index, the reasons are the
  descriptions of the matching rules, then \<^verbatim>\<open>"Payable call"\<close> with 5 added to the risk
  if the mutability of the descriptor is \<^verbatim>\<open>payable\<close>, then the value-attached reason;
  for any other mutability \<^verbatim>\<open>"Payable call"\<close> does not occur.
\<close>

theorem payable_contribution:
  assumes "idx (slice0 10 (call_data call)) = Some d"
  shows "\<exists>r. analyzeCall idx call = Inr r \<and>
     reasons r = map desc (filter (\<lambda>\<rho>. test (regex \<rho>) (toLowerCase (name d))) RULES)
       @ (if stateMutability d = ''payable'' then [''Payable call''] else [])
       @ (if value_attached call then [''ETH value attached''] else []) \<and>
     risk r = sum_list (map weight (filter (\<lambda>\<rho>. test (regex \<rho>) (toLowerCase (name d))) RULES))
       + (if stateMutability d = ''payable'' then 5 else 0)
       + (if value_attached call then 5 else 0) \<and>
     (''Payable call'' \<in> set (reasons r) \<longleftrightarrow> stateMutability d = ''payable'')"
proof -
  from assms have gp: "get_property idx (slice0 10 (call_data call)) = Descriptor d"
    by (rule get_property_own)
  then have "meta_name (get_property idx (slice0 10 (call_data call))) = Some (name d)"
    by simp
  from analyzeCall_named [OF this]
    rule_descs_not_fixed(2) [of "\<lambda>\<rho>. test (regex \<rho>) (toLowerCase (name d))"]
  show ?thesis
    by (simp add: gp value_check_fields)
qed

theorem payable_contribution_witness:
  "buildSelectorIndex zero_digest [mintTo_entry] (slice0 10 ''0x00000000'')
     = Some \<lparr> name = ''mintTo'', inputs = [\<lparr> i_type = ''address'' \<rparr>], stateMutability = ''payable'' \<rparr> \<and>
   analyzeCall (buildSelectorIndex zero_digest [mintTo_entry])
      \<lparr> call_to = ''0x01'', call_data = ''0x00000000'', call_value = JNumber (Finite 0) \<rparr>
    = Inr \<lparr> risk = 25, reasons = [''Token minting'', ''Payable call''], selector = ''0x00000000'' \<rparr>"
proof -
  have a: "buildSelectorIndex zero_digest [mintTo_entry]
       (slice0 10 (call_data \<lparr> call_to = ''0x01'', call_data = ''0x00000000'', call_value = JNumber (Finite 0) \<rparr>))
     = Some \<lparr> name = ''mintTo'', inputs = [\<lparr> i_type = ''address'' \<rparr>], stateMutability = ''payable'' \<rparr>"
    by code_simp
  have b: "analyzeCall (buildSelectorIndex zero_digest [mintTo_entry])
      \<lparr> call_to = ''0x01'', call_data = ''0x00000000'', call_value = JNumber (Finite 0) \<rparr>
    = Inr \<lparr> risk = 25, reasons = [''Token minting'', ''Payable call''], selector = ''0x00000000'' \<rparr>"
    by code_simp
  from payable_contribution [of "buildSelectorIndex zero_digest [mintTo_entry]"
      "\<lparr> call_to = ''0x01'', call_data = ''0x00000000'', call_value = JNumber (Finite 0) \<rparr>"
      "\<lparr> name = ''mintTo'', inputs = [\<lparr> i_type = ''address'' \<rparr>], stateMutability = ''payable'' \<rparr>"]
    a b
  show ?thesis by simp
qed

text \<open>
  Claim C3 says that a call whose selector is not a key of the index scores the
  unknown-selector penalty of 10 with the reason \<^verbatim>\<open>"Unknown selector (not in ABI)"\<close>.
  The index is a plain object, so the selector \<^verbatim>\<open>toString\<close>, which is not a key of the
  index, is found in \<^verbatim>\<open>Object.prototype\<close>: the call is treated as resolved and gets
  risk 0 and no reason.
\<close>

theorem inherited_key_scores_nothing:
  "buildSelectorIndex zero_digest [mint_entry] ''toString'' = None \<and>
   analyzeCall (buildSelectorIndex zero_digest [mint_entry])
      \<lparr> call_to = ''0x01'', call_data = ''toString'', call_value = JNumber (Finite 0) \<rparr>
    = Inr \<lparr> risk = 0, reasons = [], selector = ''toString'' \<rparr>"
  by code_simp

text \<open>
  Claim C9 says that the analyzer returns a result for every index and every call whose
  data is a string. For the data \<^verbatim>\<open>__proto__\<close> (9 characters) the lookup gives
  \<^verbatim>\<open>Object.prototype\<close>, which has no \<^verbatim>\<open>name\<close>, and \<^verbatim>\<open>meta.name.toLowerCase()\<close>
  throws a \<^verbatim>\<open>TypeError\<close>.
\<close>

theorem proto_key_throws:
  "buildSelectorIndex zero_digest [mint_entry] ''__proto__'' = None \<and>
   analyzeCall (buildSelectorIndex zero_digest [mint_entry])
      \<lparr> call_to = ''0x01'', call_data = ''__proto__'', call_value = JNumber (Finite 0) \<rparr>
    = Inl TypeError"
  by code_simp

section \<open>The upgrade-proxy rule\<close>

lemma rmatch_Lit_self: "rmatch (Lit w) (w @ t) = [t]"
  by simp

lemma rmatch_DotStar_skip:
  assumes "\<forall>ch \<in> set b. \<not> LineTerminator ch"
  shows "t \<in> set (rmatch DotStar (b @ t))"
proof -
  from assms have "takeWhile (\<lambda>c. \<not> LineTerminator c) (b @ t)
      = b @ takeWhile (\<lambda>c. \<not> LineTerminator c) t"
    by (simp add: takeWhile_append2)
  then have "length b \<in> set (rev [0 ..< Suc (length (takeWhile (\<lambda>c. \<not> LineTerminator c) (b @ t)))])"
    by simp
  then have "(\<lambda>k. drop k (b @ t)) (length b)
      \<in> (\<lambda>k. drop k (b @ t)) ` set (rev [0 ..< Suc (length (takeWhile (\<lambda>c. \<not> LineTerminator c) (b @ t)))])"
    by (rule imageI)
  then have "drop (length b) (b @ t) \<in> set (rmatch DotStar (b @ t))"
    by (simp only: rmatch.simps set_map)
  then show ?thesis by simp
qed

lemma rmatch_Seq_mem:
  "u \<in> set (rmatch p s) \<Longrightarrow> v \<in> set (rmatch q u) \<Longrightarrow> v \<in> set (rmatch (Seq p q) s)"
  by auto

lemma test_at:
  assumes "rmatch r t \<noteq> []"
  shows "test r (a @ t)"
proof -
  have "length a \<in> set [0 ..< Suc (length (a @ t))]" by simp
  moreover have "rmatch r (drop (length a) (a @ t)) \<noteq> []"
    using assms by simp
  ultimately show ?thesis unfolding test_def by blast
qed

lemma upgrade_proxy_matches:
  assumes "s = a @ ''upgrade'' @ b @ k @ c"
    and "k = ''implementation'' \<or> k = ''proxy''"
    and "\<forall>ch \<in> set b. \<not> LineTerminator ch"
  shows "test (regex rule_upgrade_proxy) s"
proof -
  let ?alt = "Alt (Lit ''implementation'') (Lit ''proxy'')"
  have "rmatch (Lit k) (k @ c) = [c]" by (rule rmatch_Lit_self)
  with assms(2) have 1: "c \<in> set (rmatch ?alt (k @ c))"
    by auto
  have 2: "k @ c \<in> set (rmatch DotStar (b @ k @ c))"
    using assms(3) by (rule rmatch_DotStar_skip)
  have 3: "c \<in> set (rmatch (Seq DotStar ?alt) (b @ k @ c))"
    using 2 1 by (rule rmatch_Seq_mem)
  have "rmatch (Lit ''upgrade'') (''upgrade'' @ b @ k @ c) = [b @ k @ c]"
    by (rule rmatch_Lit_self)
  then have 4: "b @ k @ c \<in> set (rmatch (Lit ''upgrade'') (''upgrade'' @ b @ k @ c))"
    by simp
  have "c \<in> set (rmatch (Seq (Lit ''upgrade'') (Seq DotStar ?alt)) (''upgrade'' @ b @ k @ c))"
    using 4 3 by (rule rmatch_Seq_mem)
  then have "rmatch (regex rule_upgrade_proxy) (''upgrade'' @ b @ k @ c) \<noteq> []"
    by (auto simp: rule_upgrade_proxy_def)
  then show ?thesis
    unfolding assms(1) by (rule test_at)
qed

lemma rules_distinct:
  "rule_delegatecall \<noteq> rule_upgrade_proxy" "rule_role_admin \<noteq> rule_upgrade_proxy"
  "rule_pause \<noteq> rule_upgrade_proxy" "rule_mint \<noteq> rule_upgrade_proxy"
  by (simp_all add: rule_delegatecall_def rule_upgrade_proxy_def rule_role_admin_def
      rule_pause_def rule_mint_def)

lemma upgrade_proxy_share:
  assumes "P rule_upgrade_proxy"
  shows "sum_list (map weight (filter P RULES))
      = 25 + sum_list (map weight (filter (\<lambda>\<rho>. \<rho> \<noteq> rule_upgrade_proxy \<and> P \<rho>) RULES))"
    and "desc rule_upgrade_proxy \<in> set (map desc (filter P RULES))"
proof -
  have w: "weight rule_upgrade_proxy = 25"
    by (simp add: rule_upgrade_proxy_def)
  show "sum_list (map weight (filter P RULES))
      = 25 + sum_list (map weight (filter (\<lambda>\<rho>. \<rho> \<noteq> rule_upgrade_proxy \<and> P \<rho>) RULES))"
    using assms rules_distinct w by (simp add: RULES_def)
  show "desc rule_upgrade_proxy \<in> set (map desc (filter P RULES))"
    using assms by (simp add: RULES_def)
qed


subsection \<open>What a match says about a lowercased name\<close>

lemma of_char_lower_unit:
  "(of_char (lower_unit x) :: nat) =
     (if (65 \<le> (of_char x :: nat) \<and> (of_char x :: nat) \<le> 90)
        \<or> (192 \<le> (of_char x :: nat) \<and> (of_char x :: nat) \<le> 222 \<and> (of_char x :: nat) \<noteq> 215)
      then of_char x + 32 else of_char x)"
  by (auto simp: lower_unit_def Let_def of_char_of)

text \<open>In a lowercased string, a character that the pattern takes for a small ASCII
  letter is that letter.\<close>

lemma Canonicalize_lower_exact:
  assumes "Canonicalize (lower_unit x) = Canonicalize y"
    and "97 \<le> (of_char y :: nat)" and "(of_char y :: nat) \<le> 122"
  shows "lower_unit x = y"
proof -
  define n m l :: nat where "n = of_char x" and "m = of_char y" and "l = of_char (lower_unit x)"
  have n: "n < 256"
    by (simp add: n_def nat_of_char_less_256)
  have m: "97 \<le> m" "m \<le> 122"
    using assms(2,3) by (simp_all add: m_def)
  have l: "l = (if (65 \<le> n \<and> n \<le> 90) \<or> (192 \<le> n \<and> n \<le> 222 \<and> n \<noteq> 215) then n + 32 else n)"
    by (simp only: l_def n_def of_char_lower_unit)
  have cy: "Canonicalize y = m - 32"
    using m by (simp add: Canonicalize_def Let_def m_def)
  have cx: "Canonicalize (lower_unit x) =
      (if (97 \<le> l \<and> l \<le> 122) \<or> (224 \<le> l \<and> l \<le> 254 \<and> l \<noteq> 247) then l - 32
       else if l = 255 then 376 else if l = 181 then 924 else l)"
    by (simp only: Canonicalize_def Let_def l_def)
  from assms(1) have "(if (97 \<le> l \<and> l \<le> 122) \<or> (224 \<le> l \<and> l \<le> 254 \<and> l \<noteq> 247) then l - 32
       else if l = 255 then 376 else if l = 181 then 924 else l) = m - 32"
    by (simp only: cx cy)
  with n m l have "l = m"
    by (auto split: if_splits)
  then show ?thesis
    unfolding l_def m_def by (rule of_char_eqI)
qed

lemma Canonicalize_map_lower_exact:
  assumes "map Canonicalize (map lower_unit v) = map Canonicalize w"
    and "\<forall>c \<in> set w. 97 \<le> (of_char c :: nat) \<and> (of_char c :: nat) \<le> 122"
  shows "map lower_unit v = w"
  using assms
proof (induction v arbitrary: w)
  case Nil
  then show ?case by simp
next
  case (Cons x v)
  then obtain y w' where w: "w = y # w'" by (cases w) auto
  with Cons.prems have "Canonicalize (lower_unit x) = Canonicalize y"
    "97 \<le> (of_char y :: nat)" "(of_char y :: nat) \<le> 122"
    "map Canonicalize (map lower_unit v) = map Canonicalize w'"
    "\<forall>c \<in> set w'. 97 \<le> (of_char c :: nat) \<and> (of_char c :: nat) \<le> 122"
    by simp_all
  with Cons.IH [of w'] Canonicalize_lower_exact [of x y] show ?case
    by (simp add: w)
qed


lemma part_of_map:
  assumes "map f xs = a @ w @ r"
  shows "\<exists>x. w = map f x"
proof -
  have "take (length w) (drop (length a) (map f xs)) = w"
    by (simp add: assms)
  then have "w = map f (take (length w) (drop (length a) xs))"
    by (simp add: take_map drop_map)
  then show ?thesis ..
qed

lemma rmatch_Lit_elim:
  assumes "t \<in> set (rmatch (Lit w) s)"
  shows "\<exists>w'. s = w' @ t \<and> map Canonicalize w' = map Canonicalize w"
proof -
  from assms have "t = drop (length w) s"
    and "map Canonicalize (take (length w) s) = map Canonicalize w"
    by (simp_all split: if_splits)
  then have "s = take (length w) s @ t \<and> map Canonicalize (take (length w) s) = map Canonicalize w"
    by simp
  then show ?thesis by blast
qed

lemma rmatch_DotStar_elim:
  assumes "t \<in> set (rmatch DotStar s)"
  shows "\<exists>b. s = b @ t \<and> (\<forall>ch \<in> set b. \<not> LineTerminator ch)"
proof -
  let ?p = "takeWhile (\<lambda>c. \<not> LineTerminator c) s"
  from assms have "t \<in> (\<lambda>k. drop k s) ` {0 ..< Suc (length ?p)}"
    by (simp del: upt_Suc)
  then obtain k where "k < Suc (length ?p)" and t: "t = drop k s"
    by auto
  then have k: "k \<le> length ?p"
    by simp
  have "take k (?p @ dropWhile (\<lambda>c. \<not> LineTerminator c) s) = take k ?p"
    using k by (simp del: takeWhile_dropWhile_id)
  then have "take k s = take k ?p"
    by simp
  then have "set (take k s) \<subseteq> set ?p"
    by (simp add: set_take_subset)
  then have "\<forall>ch \<in> set (take k s). \<not> LineTerminator ch"
    by (auto dest: set_takeWhileD)
  moreover have "s = take k s @ t"
    by (simp add: t)
  ultimately show ?thesis by blast
qed

lemma test_elim:
  assumes "test r s"
  shows "\<exists>a t. s = a @ t \<and> rmatch r t \<noteq> []"
proof -
  from assms obtain k where "rmatch r (drop k s) \<noteq> []"
    unfolding test_def by blast
  moreover have "s = take k s @ drop k s" by simp
  ultimately show ?thesis by blast
qed

text \<open>The other direction: a match of the pattern in a lowercased name shows the two
  words in this order.\<close>

lemma upgrade_proxy_match_elim:
  assumes "test (regex rule_upgrade_proxy) (toLowerCase n)"
  shows "\<exists>a b k c. toLowerCase n = a @ ''upgrade'' @ b @ k @ c \<and>
           (k = ''implementation'' \<or> k = ''proxy'') \<and> (\<forall>ch \<in> set b. \<not> LineTerminator ch)"
proof -
  let ?alt = "Alt (Lit ''implementation'') (Lit ''proxy'')"
  have rx: "regex rule_upgrade_proxy = Seq (Lit ''upgrade'') (Seq DotStar ?alt)"
    by (simp add: rule_upgrade_proxy_def)
  from test_elim [OF assms] obtain a t where
    s: "toLowerCase n = a @ t" and ne: "rmatch (regex rule_upgrade_proxy) t \<noteq> []"
    by blast
  from ne obtain v where "v \<in> set (rmatch (regex rule_upgrade_proxy) t)"
    by (cases "rmatch (regex rule_upgrade_proxy) t") auto
  then have "v \<in> set (rmatch (Seq (Lit ''upgrade'') (Seq DotStar ?alt)) t)"
    by (simp only: rx)
  then obtain u u2 where u: "u \<in> set (rmatch (Lit ''upgrade'') t)"
    and u2: "u2 \<in> set (rmatch DotStar u)" and v: "v \<in> set (rmatch ?alt u2)"
    by (auto simp del: rmatch.simps(1,2))
  from v obtain k where k: "k = ''implementation'' \<or> k = ''proxy''"
    and vk: "v \<in> set (rmatch (Lit k) u2)"
    by (auto simp del: rmatch.simps(1))
  from rmatch_Lit_elim [OF u] obtain w1 where
    w1: "t = w1 @ u" "map Canonicalize w1 = map Canonicalize ''upgrade''"
    by blast
  from rmatch_DotStar_elim [OF u2] obtain b where
    b: "u = b @ u2" "\<forall>ch \<in> set b. \<not> LineTerminator ch"
    by blast
  from rmatch_Lit_elim [OF vk] obtain w2 where
    w2: "u2 = w2 @ v" "map Canonicalize w2 = map Canonicalize k"
    by blast
  have whole: "map lower_unit n = a @ w1 @ b @ w2 @ v"
    using s w1(1) b(1) w2(1) by (simp add: toLowerCase_def)
  from whole obtain x1 where x1: "w1 = map lower_unit x1"
    using part_of_map [of lower_unit n a w1 "b @ w2 @ v"] by blast
  from whole obtain x2 where x2: "w2 = map lower_unit x2"
    using part_of_map [of lower_unit n "a @ w1 @ b" w2 v] by auto
  have "w1 = ''upgrade''"
    unfolding x1 by (rule Canonicalize_map_lower_exact) (use w1(2) x1 in simp_all)
  moreover have "w2 = k"
    unfolding x2 by (rule Canonicalize_map_lower_exact) (use w2(2) x2 k in auto)
  ultimately have "toLowerCase n = a @ ''upgrade'' @ b @ k @ v"
    using whole by (simp add: toLowerCase_def)
  with k b(2) show ?thesis by blast
qed

lemma upgrade_proxy_desc_iff:
  "''Proxy upgrade'' \<in> set (map desc (filter P RULES)) \<longleftrightarrow> P rule_upgrade_proxy"
  by (auto simp: RULES_def rule_delegatecall_def rule_upgrade_proxy_def rule_role_admin_def
      rule_pause_def rule_mint_def)

lemma upgrade_proxy_no_share:
  assumes "\<not> P rule_upgrade_proxy"
  shows "filter P RULES = filter (\<lambda>\<rho>. \<rho> \<noteq> rule_upgrade_proxy \<and> P \<rho>) RULES"
  using assms by (auto intro!: filter_cong)

text \<open>
  Claim C2, as the pattern \<^verbatim>\<open>/upgrade.*(implementation|proxy)/i\<close> has it. For a call
  whose selector is a key of the index: if the lowercased name contains \<^verbatim>\<open>upgrade\<close>
  and, after it and with no line terminator in between, \<^verbatim>\<open>implementation\<close> or
  \<^verbatim>\<open>proxy\<close>, then the rule matches: \<^verbatim>\<open>"Proxy upgrade"\<close> is among the reasons and 25
  is added to the risk, next to the weights of the other matching rules and the fixed
  penalties. For every other name the rule does not match: \<^verbatim>\<open>"Proxy upgrade"\<close> is not
  among the reasons and the risk is that of the other rules and the fixed penalties.
\<close>

theorem upgrade_proxy_rule_exact:
  assumes "idx (slice0 10 (call_data call)) = Some d"
  shows "\<exists>r. analyzeCall idx call = Inr r \<and>
     ((\<exists>a b k c. toLowerCase (name d) = a @ ''upgrade'' @ b @ k @ c \<and>
          (k = ''implementation'' \<or> k = ''proxy'') \<and> (\<forall>ch \<in> set b. \<not> LineTerminator ch))
        \<longrightarrow> ''Proxy upgrade'' \<in> set (reasons r) \<and>
            risk r = 25
              + sum_list (map weight
                  (filter (\<lambda>\<rho>. \<rho> \<noteq> rule_upgrade_proxy \<and> test (regex \<rho>) (toLowerCase (name d))) RULES))
              + (if stateMutability d = ''payable'' then 5 else 0)
              + (if value_attached call then 5 else 0)) \<and>
     (\<not> (\<exists>a b k c. toLowerCase (name d) = a @ ''upgrade'' @ b @ k @ c \<and>
          (k = ''implementation'' \<or> k = ''proxy'') \<and> (\<forall>ch \<in> set b. \<not> LineTerminator ch))
        \<longrightarrow> ''Proxy upgrade'' \<notin> set (reasons r) \<and>
            risk r =
                sum_list (map weight
                  (filter (\<lambda>\<rho>. \<rho> \<noteq> rule_upgrade_proxy \<and> test (regex \<rho>) (toLowerCase (name d))) RULES))
              + (if stateMutability d = ''payable'' then 5 else 0)
              + (if value_attached call then 5 else 0))"
proof -
  let ?P = "\<lambda>\<rho>. test (regex \<rho>) (toLowerCase (name d))"
  let ?shape = "\<exists>a b k c. toLowerCase (name d) = a @ ''upgrade'' @ b @ k @ c \<and>
          (k = ''implementation'' \<or> k = ''proxy'') \<and> (\<forall>ch \<in> set b. \<not> LineTerminator ch)"
  let ?res = "value_check call
       \<lparr> risk = sum_list (map weight (filter ?P RULES))
           + (if stateMutability d = ''payable'' then 5 else 0),
         reasons = map desc (filter ?P RULES)
           @ (if stateMutability d = ''payable'' then [''Payable call''] else []),
         selector = slice0 10 (call_data call) \<rparr>"
  have iff: "?P rule_upgrade_proxy \<longleftrightarrow> ?shape"
  proof
    assume "?P rule_upgrade_proxy"
    then show ?shape by (rule upgrade_proxy_match_elim)
  next
    assume ?shape
    then obtain a b k c where "toLowerCase (name d) = a @ ''upgrade'' @ b @ k @ c"
      "k = ''implementation'' \<or> k = ''proxy''" "\<forall>ch \<in> set b. \<not> LineTerminator ch"
      by blast
    then show "?P rule_upgrade_proxy" by (rule upgrade_proxy_matches)
  qed
  from assms have gp: "get_property idx (slice0 10 (call_data call)) = Descriptor d"
    by (rule get_property_own)
  then have "meta_name (get_property idx (slice0 10 (call_data call))) = Some (name d)"
    by simp
  from analyzeCall_named [OF this] have res: "analyzeCall idx call = Inr ?res"
    by (simp add: gp)
  have mem: "''Proxy upgrade'' \<in> set (reasons ?res) \<longleftrightarrow> ?P rule_upgrade_proxy"
    using upgrade_proxy_desc_iff [of ?P] by (simp add: value_check_fields)
  have pos: "risk ?res = 25
      + sum_list (map weight (filter (\<lambda>\<rho>. \<rho> \<noteq> rule_upgrade_proxy \<and> ?P \<rho>) RULES))
      + (if stateMutability d = ''payable'' then 5 else 0)
      + (if value_attached call then 5 else 0)" if "?P rule_upgrade_proxy"
    using upgrade_proxy_share(1) [of ?P, OF that] by (simp add: value_check_fields)
  have neg: "risk ?res =
        sum_list (map weight (filter (\<lambda>\<rho>. \<rho> \<noteq> rule_upgrade_proxy \<and> ?P \<rho>) RULES))
      + (if stateMutability d = ''payable'' then 5 else 0)
      + (if value_attached call then 5 else 0)" if "\<not> ?P rule_upgrade_proxy"
    using upgrade_proxy_no_share [of ?P, OF that] by (simp add: value_check_fields)
  show ?thesis
  proof (rule exI [of _ ?res], intro conjI impI)
    show "analyzeCall idx call = Inr ?res" by (rule res)
    show "''Proxy upgrade'' \<in> set (reasons ?res)" if ?shape
      using that mem iff by blast
    show "risk ?res = 25
      + sum_list (map weight (filter (\<lambda>\<rho>. \<rho> \<noteq> rule_upgrade_proxy \<and> ?P \<rho>) RULES))
      + (if stateMutability d = ''payable'' then 5 else 0)
      + (if value_attached call then 5 else 0)" if ?shape
      using that iff by (intro pos) blast
    show "''Proxy upgrade'' \<notin> set (reasons ?res)" if "\<not> ?shape"
      using that mem iff by blast
    show "risk ?res =
        sum_list (map weight (filter (\<lambda>\<rho>. \<rho> \<noteq> rule_upgrade_proxy \<and> ?P \<rho>) RULES))
      + (if stateMutability d = ''payable'' then 5 else 0)
      + (if value_attached call then 5 else 0)" if "\<not> ?shape"
      using that iff by (intro neg) blast
  qed
qed

theorem upgrade_proxy_rule_exact_witness:
  "buildSelectorIndex zero_digest [upgradeProxyTo_entry] (slice0 10 ''0x00000000'')
     = Some (descriptor_of upgradeProxyTo_entry) \<and>
   toLowerCase (name (descriptor_of upgradeProxyTo_entry)) = [] @ ''upgrade'' @ [] @ ''proxy'' @ ''to'' \<and>
   analyzeCall (buildSelectorIndex zero_digest [upgradeProxyTo_entry])
      \<lparr> call_to = ''0x01'', call_data = ''0x00000000'', call_value = JNumber (Finite 0) \<rparr>
     = Inr \<lparr> risk = 25, reasons = [''Proxy upgrade''], selector = ''0x00000000'' \<rparr>"
proof -
  let ?idx = "buildSelectorIndex zero_digest [upgradeProxyTo_entry]"
  let ?call = "\<lparr> call_to = ''0x01'', call_data = ''0x00000000'', call_value = JNumber (Finite 0) \<rparr>"
  let ?d = "descriptor_of upgradeProxyTo_entry"
  have h1: "?idx (slice0 10 (call_data ?call)) = Some ?d"
    by code_simp
  have h2: "toLowerCase (name ?d) = [] @ ''upgrade'' @ [] @ ''proxy'' @ ''to''"
    by code_simp
  have shape: "\<exists>a b k c. toLowerCase (name ?d) = a @ ''upgrade'' @ b @ k @ c \<and>
      (k = ''implementation'' \<or> k = ''proxy'') \<and> (\<forall>ch \<in> set b. \<not> LineTerminator ch)"
    using h2 by (intro exI [of _ "[]"] exI [of _ "''proxy''"] exI [of _ "''to''"]) simp
  have others: "filter (\<lambda>\<rho>. \<rho> \<noteq> rule_upgrade_proxy \<and> test (regex \<rho>) (toLowerCase (name ?d))) RULES = []"
    by code_simp
  have mut: "stateMutability ?d \<noteq> ''payable''" "\<not> value_attached ?call"
    by code_simp+
  from upgrade_proxy_rule_exact [of ?idx ?call ?d, OF h1] shape obtain r where
    r: "analyzeCall ?idx ?call = Inr r" "''Proxy upgrade'' \<in> set (reasons r)"
      "risk r = 25
        + sum_list (map weight
            (filter (\<lambda>\<rho>. \<rho> \<noteq> rule_upgrade_proxy \<and> test (regex \<rho>) (toLowerCase (name ?d))) RULES))
        + (if stateMutability ?d = ''payable'' then 5 else 0)
        + (if value_attached ?call then 5 else 0)"
    by blast
  from r(3) others mut have "risk r = 25"
    by simp
  have e: "analyzeCall ?idx ?call
      = Inr \<lparr> risk = 25, reasons = [''Proxy upgrade''], selector = ''0x00000000'' \<rparr>"
    by code_simp
  from h1 h2 e r(1) \<open>risk r = 25\<close> show ?thesis
    by simp
qed

text \<open>
  Claim C2 as stated, for any order of the two words, fails. The name
  \<^verbatim>\<open>proxyUpgrade\<close> mentions \<^verbatim>\<open>proxy\<close> and \<^verbatim>\<open>upgrade\<close>, and the call gets risk 0 and
  no reason; so does a name with \<^verbatim>\<open>upgrade\<close>, a line feed and \<^verbatim>\<open>proxy\<close>, since
  \<^verbatim>\<open>.\<close> does not match a line terminator.
\<close>

theorem upgrade_after_target_counterexample:
  "toLowerCase (name (descriptor_of proxyUpgrade_entry)) = ''proxy'' @ ''upgrade'' \<and>
   buildSelectorIndex zero_digest [proxyUpgrade_entry] (slice0 10 ''0x00000000'')
     = Some (descriptor_of proxyUpgrade_entry) \<and>
   analyzeCall (buildSelectorIndex zero_digest [proxyUpgrade_entry])
      \<lparr> call_to = ''0x01'', call_data = ''0x00000000'', call_value = JNumber (Finite 0) \<rparr>
     = Inr \<lparr> risk = 0, reasons = [], selector = ''0x00000000'' \<rparr> \<and>
   toLowerCase (name (descriptor_of upgradeLineProxy_entry)) = ''upgrade'' @ [CHR 0x0A] @ ''proxy'' \<and>
   buildSelectorIndex zero_digest [upgradeLineProxy_entry] (slice0 10 ''0x00000000'')
     = Some (descriptor_of upgradeLineProxy_entry) \<and>
   analyzeCall (buildSelectorIndex zero_digest [upgradeLineProxy_entry])
      \<lparr> call_to = ''0x01'', call_data = ''0x00000000'', call_value = JNumber (Finite 0) \<rparr>
     = Inr \<lparr> risk = 0, reasons = [], selector = ''0x00000000'' \<rparr>"
  by code_simp

section \<open>Properties of the report\<close>

subsection \<open>The quotient as a double\<close>

lemma floor_log2_bounds:
  "0 < n \<Longrightarrow> 2 ^ floor_log2 n \<le> n \<and> n < 2 ^ Suc (floor_log2 n)"
proof (induction n rule: floor_log2.induct)
  case (1 n)
  show ?case
  proof (cases "n < 2")
    case True
    with "1.prems" show ?thesis
      by (simp add: floor_log2.simps)
  next
    case False
    then have pos: "0 < n div 2" by simp
    from "1.IH" [OF False pos]
    have lo: "2 ^ floor_log2 (n div 2) \<le> n div 2"
      and hi: "n div 2 < 2 ^ Suc (floor_log2 (n div 2))"
      by simp_all
    have eq: "floor_log2 n = Suc (floor_log2 (n div 2))"
      using False by (subst floor_log2.simps) simp
    from lo have "2 * 2 ^ floor_log2 (n div 2) \<le> n" by linarith
    moreover from hi have "n < 2 * 2 ^ Suc (floor_log2 (n div 2))" by linarith
    ultimately show ?thesis
      by (simp add: eq)
  qed
qed

lemma binary_exponent_bounds:
  assumes "0 < q"
  shows "2 powi binary_exponent q \<le> q \<and> q < 2 powi (binary_exponent q + 1)"
proof -
  obtain n d where nd: "quotient_of q = (n, d)"
    by (cases "quotient_of q")
  then have d: "0 < d" and q: "q = of_int n / of_int d"
    by (auto dest: quotient_of_denom_pos quotient_of_div)
  from assms q d have n: "0 < n"
    by (simp add: zero_less_divide_iff)
  define fn fd where "fn = floor_log2 (nat n)" and "fd = floor_log2 (nat d)"
  define k where "k = int fn - int fd"
  from n floor_log2_bounds [of "nat n"]
  have "2 ^ fn \<le> nat n" "nat n < 2 ^ Suc fn"
    by (simp_all add: fn_def)
  then have "(of_nat (2 ^ fn) :: rat) \<le> of_nat (nat n)" "(of_nat (nat n) :: rat) < of_nat (2 ^ Suc fn)"
    by (simp_all only: of_nat_le_iff of_nat_less_iff)
  with n have nb: "(2 :: rat) ^ fn \<le> of_int n" "(of_int n :: rat) < 2 * 2 ^ fn"
    by simp_all
  from d floor_log2_bounds [of "nat d"]
  have "2 ^ fd \<le> nat d" "nat d < 2 ^ Suc fd"
    by (simp_all add: fd_def)
  then have "(of_nat (2 ^ fd) :: rat) \<le> of_nat (nat d)" "(of_nat (nat d) :: rat) < of_nat (2 ^ Suc fd)"
    by (simp_all only: of_nat_le_iff of_nat_less_iff)
  with d have db: "(2 :: rat) ^ fd \<le> of_int d" "(of_int d :: rat) < 2 * 2 ^ fd"
    by simp_all
  have pk: "(2 :: rat) powi k = 2 ^ fn / 2 ^ fd"
    by (simp add: k_def power_int_diff)
  have dpos: "(0 :: rat) < of_int d" using d by simp
  have hi: "q < 2 * (2 ^ fn / 2 ^ fd)"
  proof -
    have "of_int n * (2 :: rat) ^ fd < (2 * 2 ^ fn) * of_int d"
      using nb(2) db(1) dpos
      by (meson less_le_trans mult_le_cancel_left_pos mult_less_cancel_right_pos
          zero_less_numeral zero_less_power mult_pos_pos)
    then show ?thesis
      using dpos by (simp add: q field_simps)
  qed
  have lo: "2 ^ fn / 2 ^ fd / 2 < q"
  proof -
    have "(2 :: rat) ^ fn * of_int d < of_int n * (2 * 2 ^ fd)"
      using nb(1) db(2) dpos
      by (meson le_less_trans mult_le_cancel_right_pos mult_less_cancel_left_pos
          zero_less_numeral zero_less_power mult_pos_pos less_le_trans)
    then show ?thesis
      using dpos by (simp add: q field_simps)
  qed
  have be: "binary_exponent q = (if 2 powi k \<le> q then k else k - 1)"
    by (simp add: binary_exponent_def nd fn_def fd_def k_def Let_def)
  have p1: "(2 :: rat) powi (k + 1) = 2 * 2 powi k"
    by (simp add: power_int_add)
  have m1: "(2 :: rat) powi (k - 1) = 2 powi k / 2"
    by (simp add: power_int_diff)
  show ?thesis
  proof (cases "2 powi k \<le> q")
    case True
    with be hi show ?thesis by (simp add: p1 pk)
  next
    case False
    with be lo show ?thesis by (simp add: m1 pk)
  qed
qed

lemma round_half_even_error: "\<bar>of_int (round_half_even m) - m\<bar> \<le> 1 / 2"
proof -
  have "of_int \<lfloor>m\<rfloor> \<le> m" "m < of_int \<lfloor>m\<rfloor> + 1"
    by linarith+
  then show ?thesis
    by (auto simp: round_half_even_def Let_def)
qed


lemma round_half_even_nonneg: "0 \<le> m \<Longrightarrow> 0 \<le> round_half_even m"
  by (auto simp: round_half_even_def Let_def)

text \<open>A positive value below 128 rounds to a finite double at most \<open>2 ^ -47\<close> away.\<close>

lemma round_double_small:
  assumes "0 < q" and "q < 128"
  shows "\<exists>r. round_double q = Finite r \<and> 0 \<le> r \<and> \<bar>r - q\<bar> \<le> 1 / 2 ^ 47"
proof -
  define e where "e = max (binary_exponent q) (- 1022)"
  define u :: rat where "u = 2 powi (e - 52)"
  define r :: rat where "r = of_int (round_half_even (q / u)) * u"
  have upos: "0 < u"
    by (simp add: u_def zero_less_power_int)
  from binary_exponent_bounds [OF assms(1)] assms(2)
  have "(2 :: rat) powi binary_exponent q < 2 powi 7"
    by simp
  then have "binary_exponent q < 7"
    by (rule power_int_le_imp_less_exp [rotated]) simp_all
  then have "e - 52 \<le> - 46"
    by (simp add: e_def)
  then have "u \<le> 2 powi (- 46)"
    unfolding u_def by (rule power_int_increasing) simp
  then have ub: "u \<le> 1 / 2 ^ 46"
    by (simp add: power_int_minus field_simps)
  have "\<bar>of_int (round_half_even (q / u)) - q / u\<bar> * u \<le> 1 / 2 * u"
    using round_half_even_error [of "q / u"] upos by (simp only: mult_le_cancel_right_pos)
  moreover have "\<bar>of_int (round_half_even (q / u)) - q / u\<bar> * u = \<bar>r - q\<bar>"
  proof -
    have "\<bar>of_int (round_half_even (q / u)) - q / u\<bar> * u
        = \<bar>(of_int (round_half_even (q / u)) - q / u) * u\<bar>"
      using upos by (simp add: abs_mult)
    also have "(of_int (round_half_even (q / u)) - q / u) * u = r - q"
      using upos by (simp add: r_def left_diff_distrib)
    finally show ?thesis .
  qed
  ultimately have "\<bar>r - q\<bar> \<le> u / 2"
    by simp
  with ub have err: "\<bar>r - q\<bar> \<le> 1 / 2 ^ 47"
    by simp
  then have "r \<le> q + 1 / 2 ^ 47"
    by linarith
  with assms(2) have "r < 129"
    by simp
  also have "(129 :: rat) \<le> 2 ^ 1024"
    by simp
  finally have fin: "\<not> 2 ^ 1024 \<le> r"
    by simp
  have "round_double q = Finite r"
    using assms(1) fin
    by (simp add: round_double_def Let_def e_def [symmetric] u_def [symmetric] r_def [symmetric])
  moreover have "0 \<le> r"
  proof -
    from assms(1) upos have "0 \<le> q / u" by simp
    then have "0 \<le> round_half_even (q / u)" by (rule round_half_even_nonneg)
    with upos show ?thesis by (simp add: r_def)
  qed
  ultimately show ?thesis using err by blast
qed

lemma divide_nat_error:
  assumes "0 < b" and "a \<le> 120 * b"
  shows "\<exists>q. divide_nat a b = Finite q \<and> 0 \<le> q \<and> \<bar>q - of_nat a / of_nat b\<bar> \<le> 1 / 2 ^ 47"
proof (cases "a = 0")
  case True
  then show ?thesis
    by (simp add: divide_nat_def round_double_def)
next
  case False
  with assms(1) have pos: "(0 :: rat) < of_nat a / of_nat b"
    by simp
  from assms(2) have "(of_nat a :: rat) \<le> of_nat (120 * b)"
    by (simp only: of_nat_le_iff)
  with assms(1) have "(of_nat a :: rat) / of_nat b \<le> 120"
    by (simp add: field_simps)
  then have "(of_nat a :: rat) / of_nat b < 128"
    by simp
  from round_double_small [OF pos this] show ?thesis
    by (simp add: divide_nat_def)
qed

subsection \<open>Two fraction digits\<close>

lemma digit_char_0: "digit_char 0 = CHR ''0''"
  by code_simp

lemma digits_of_small: "n < 10 \<Longrightarrow> digits_of n = [digit_char n]"
  by (subst digits_of.simps) simp

lemma digits_of_step: "10 \<le> n \<Longrightarrow> digits_of n = digits_of (n div 10) @ [digit_char n]"
  by (subst digits_of.simps) simp

lemma digits_of_nonempty: "digits_of n \<noteq> []"
  by (subst digits_of.simps) simp

lemma toFixed2_finite_shape:
  assumes "0 \<le> x" and "n = nat \<lfloor>x * 100 + 1 / 2\<rfloor>"
  shows "toFixed2_finite x = digits_of (n div 100) @ ''.'' @ [digit_char (n div 10), digit_char n]"
proof -
  have m: "(if n = 0 then ''0'' else digits_of n) = digits_of n"
    by (simp add: digits_of_small digit_char_0)
  have ax: "\<bar>x\<bar> = x" "(x < 0) = False"
    using assms(1) by simp_all
  have tf: "toFixed2_finite x =
     (let m' = (if length (digits_of n) \<le> 2
                then replicate (3 - length (digits_of n)) (CHR ''0'') @ digits_of n
                else digits_of n)
      in take (length m' - 2) m' @ ''.'' @ drop (length m' - 2) m')"
    unfolding toFixed2_finite_def ax assms(2) [symmetric] Let_def m by simp
  consider (one) "n < 10" | (two) "10 \<le> n" "n < 100" | (more) "100 \<le> n"
    by linarith
  then show ?thesis
  proof cases
    case one
    then have "digits_of n = [digit_char n]" "digits_of (n div 100) = ''0''"
      "digit_char (n div 10) = CHR ''0''"
      by (simp_all add: digits_of_small digit_char_0)
    then show ?thesis
      by (simp add: tf numeral_2_eq_2)
  next
    case two
    then have "n div 10 < 10" by simp
    with two have "digits_of n = [digit_char (n div 10), digit_char n]"
      "digits_of (n div 100) = ''0''"
      by (simp_all add: digits_of_step digits_of_small digit_char_0)
    then show ?thesis
      by (simp add: tf)
  next
    case more
    then have "10 \<le> n" "10 \<le> n div 10" by simp_all
    then have d: "digits_of n = digits_of (n div 100) @ [digit_char (n div 10), digit_char n]"
      by (simp add: digits_of_step div_mult2_eq [symmetric])
    with digits_of_nonempty [of "n div 100"] have "\<not> length (digits_of n) \<le> 2"
      by (cases "digits_of (n div 100)") simp_all
    then show ?thesis
      by (simp add: tf d)
  qed
qed

lemma nearest_hundredth:
  assumes "0 \<le> (q :: rat)"
  shows "\<bar>of_nat (nat \<lfloor>q * 100 + 1 / 2\<rfloor>) / 100 - q\<bar> \<le> 1 / 200"
proof -
  define f where "f = \<lfloor>q * 100 + 1 / 2\<rfloor>"
  have "0 \<le> f"
    using assms by (simp add: f_def)
  then have n: "(of_nat (nat f) :: rat) = of_int f"
    by simp
  have "of_int f \<le> q * 100 + 1 / 2" "q * 100 + 1 / 2 < of_int f + 1"
    unfolding f_def by linarith+
  then have "\<bar>of_int f / 100 - q\<bar> \<le> 1 / 200"
    by (simp only: abs_le_iff) linarith
  then show ?thesis
    by (simp only: n f_def [symmetric])
qed

lemma sum_list_filter_le:
  fixes f :: "'a \<Rightarrow> nat"
  shows "sum_list (map f (filter P xs)) \<le> sum_list (map f xs)"
  by (induction xs) simp_all

subsection \<open>The loop over the calls and the average\<close>

lemma weights_bound: "sum_list (map weight (filter P RULES)) \<le> 110"
proof -
  have "sum_list (map weight (filter P RULES)) \<le> sum_list (map weight RULES)"
    by (rule sum_list_filter_le)
  also have "\<dots> = 110"
    by (simp add: RULES_def rule_delegatecall_def rule_upgrade_proxy_def rule_role_admin_def
        rule_pause_def rule_mint_def)
  finally show ?thesis .
qed

lemma risk_bound:
  assumes "analyzeCall idx call = Inr r"
  shows "risk r \<le> 120"
proof -
  let ?m = "get_property idx (slice0 10 (call_data call))"
  from meta_cases [of ?m] consider
    (unknown) "?m = Undefined" | (proto) "?m = ObjectPrototype" | (named) n where "meta_name ?m = Some n"
    by blast
  then show ?thesis
  proof cases
    case unknown
    from analyzeCall_Undefined [OF this] assms show ?thesis
      by (auto simp: value_check_fields)
  next
    case proto
    from analyzeCall_ObjectPrototype [OF this] assms show ?thesis by simp
  next
    case named
    from analyzeCall_named [OF this] assms
      weights_bound [of "\<lambda>\<rho>. test (regex \<rho>) (toLowerCase n)"]
    show ?thesis
      by (auto simp: value_check_fields)
  qed
qed

lemma analyze_loop_results:
  assumes "analyze_loop idx cs acc = Inr res"
  shows "\<exists>rs. map (analyzeCall idx) cs = map Inr rs \<and>
           res = acc @ map (\<lambda>(c, r). set_target r (call_to c)) (zip cs rs)"
  using assms
proof (induction cs arbitrary: acc)
  case Nil
  then show ?case by simp
next
  case (Cons c cs)
  from Cons.prems obtain r where r: "analyzeCall idx c = Inr r"
    and rest: "analyze_loop idx cs (acc @ [set_target r (call_to c)]) = Inr res"
    by (auto split: sum.splits)
  from Cons.IH [OF rest] obtain rs where
    rs: "map (analyzeCall idx) cs = map Inr rs"
      "res = (acc @ [set_target r (call_to c)]) @ map (\<lambda>(c, r). set_target r (call_to c)) (zip cs rs)"
    by blast
  have "map (analyzeCall idx) (c # cs) = map Inr (r # rs)"
    using r rs(1) by simp
  moreover have "res = acc @ map (\<lambda>(c, r). set_target r (call_to c)) (zip (c # cs) (r # rs))"
    using rs(2) by simp
  ultimately show ?case by blast
qed

lemma foldl_risk: "foldl (\<lambda>a b. a + risk b) s xs = s + sum_list (map risk xs)"
  by (induction xs arbitrary: s) simp_all

text \<open>
  Claim C8. Whenever \<^verbatim>\<open>main\<close> produces a report, its items are the results of the
  calls, one per call and in the order of the queue, each with the \<^verbatim>\<open>to\<close> field of its
  call as target. For an empty queue the average is the literal \<^verbatim>\<open>"0.00"\<close> and there are
  no items. Otherwise the average is computed from the sum of all risks divided by their
  number: the quotient is a double \<open>q\<close> at most \<open>2 ^ -47\<close> away from the exact mean, and
  the string is the decimal numeral of \<open>n / 100\<close> with exactly two fraction digits, where
  \<open>n\<close> is the integer nearest to \<open>100 * q\<close>.
\<close>

theorem report_contents:
  assumes "main H abi calls = Inr rep"
  shows "\<exists>rs. map (analyzeCall (buildSelectorIndex H abi)) calls = map Inr rs \<and>
     items rep = map (\<lambda>(c, r). set_target r (call_to c)) (zip calls rs) \<and>
     map target (items rep) = map call_to calls \<and>
     (calls = [] \<longrightarrow> avgRisk rep = ''0.00'' \<and> items rep = []) \<and>
     (calls \<noteq> [] \<longrightarrow>
        (\<exists>q n. divide_nat (sum_list (map risk rs)) (length rs) = Finite q \<and>
           \<bar>q - of_nat (sum_list (map risk rs)) / of_nat (length rs)\<bar> \<le> 1 / 2 ^ 47 \<and>
           n = nat \<lfloor>q * 100 + 1 / 2\<rfloor> \<and>
           \<bar>of_nat n / 100 - q\<bar> \<le> 1 / 200 \<and>
           avgRisk rep = digits_of (n div 100) @ ''.'' @ [digit_char (n div 10), digit_char n]))"
proof -
  let ?idx = "buildSelectorIndex H abi"
  from assms obtain results where
    loop: "analyze_loop ?idx calls [] = Inr results" and rep: "rep = report_of results"
    by (auto simp: main_def split: sum.splits)
  from analyze_loop_results [OF loop] obtain rs where
    rs: "map (analyzeCall ?idx) calls = map Inr rs"
    and res: "results = map (\<lambda>(c, r). set_target r (call_to c)) (zip calls rs)"
    by auto
  from rs have len: "length rs = length calls"
    by (metis length_map)
  have items: "items rep = results"
    by (simp add: rep report_of_def Let_def)
  have tg: "map target results = map call_to calls"
    unfolding res using len
    by (induction calls rs rule: list_induct2') (simp_all add: set_target_def)
  have rk: "map risk results = map risk rs"
    unfolding res using len
    by (induction calls rs rule: list_induct2') (simp_all add: set_target_def)
  have lr: "length results = length calls"
    using len by (simp add: res)
  have empty: "avgRisk rep = ''0.00'' \<and> items rep = []" if "calls = []"
    using that lr by (simp add: rep report_of_def Let_def)
  have avg: "\<exists>q n. divide_nat (sum_list (map risk rs)) (length rs) = Finite q \<and>
           \<bar>q - of_nat (sum_list (map risk rs)) / of_nat (length rs)\<bar> \<le> 1 / 2 ^ 47 \<and>
           n = nat \<lfloor>q * 100 + 1 / 2\<rfloor> \<and>
           \<bar>of_nat n / 100 - q\<bar> \<le> 1 / 200 \<and>
           avgRisk rep = digits_of (n div 100) @ ''.'' @ [digit_char (n div 10), digit_char n]"
    if ne: "calls \<noteq> []"
  proof -
    from ne len have pos: "0 < length rs" by simp
    have "\<forall>r \<in> set rs. risk r \<le> 120"
    proof
      fix r assume "r \<in> set rs"
      then have "Inr r \<in> set (map (analyzeCall ?idx) calls)"
        by (simp add: rs)
      then obtain c where "analyzeCall ?idx c = Inr r" by auto
      then show "risk r \<le> 120" by (rule risk_bound)
    qed
    then have "sum_list (map risk rs) \<le> 120 * length rs"
      by (induction rs) auto
    from divide_nat_error [OF pos this] obtain q where
      q: "divide_nat (sum_list (map risk rs)) (length rs) = Finite q" "0 \<le> q"
        "\<bar>q - of_nat (sum_list (map risk rs)) / of_nat (length rs)\<bar> \<le> 1 / 2 ^ 47"
      by blast
    have "avgRisk rep = toFixed2 (divide_nat (sum_list (map risk rs)) (length rs))"
      using ne lr len by (simp add: rep report_of_def Let_def foldl_risk rk)
    then have "avgRisk rep = toFixed2_finite q"
      by (simp add: q(1))
    with toFixed2_finite_shape [OF q(2) refl] nearest_hundredth [OF q(2)] q(1,3)
    show ?thesis by simp
  qed
  show ?thesis
  proof (rule exI [of _ rs], intro conjI impI)
    show "map (analyzeCall ?idx) calls = map Inr rs" by (rule rs)
    show "items rep = map (\<lambda>(c, r). set_target r (call_to c)) (zip calls rs)"
      by (simp only: items res)
    show "map target (items rep) = map call_to calls"
      by (simp only: items tg)
    show "avgRisk rep = ''0.00''" if "calls = []"
      using empty that by simp
    show "items rep = []" if "calls = []"
      using empty that by simp
    show "\<exists>q n. divide_nat (sum_list (map risk rs)) (length rs) = Finite q \<and>
           \<bar>q - of_nat (sum_list (map risk rs)) / of_nat (length rs)\<bar> \<le> 1 / 2 ^ 47 \<and>
           n = nat \<lfloor>q * 100 + 1 / 2\<rfloor> \<and>
           \<bar>of_nat n / 100 - q\<bar> \<le> 1 / 200 \<and>
           avgRisk rep = digits_of (n div 100) @ ''.'' @ [digit_char (n div 10), digit_char n]"
      if "calls \<noteq> []"
      using that by (rule avg)
  qed
qed

theorem report_contents_witness:
  "main zero_digest [mint_entry]
      [\<lparr> call_to = ''0xaa'', call_data = ''0x00000000ffff'', call_value = JNumber (Finite 1) \<rparr>,
       \<lparr> call_to = ''0xbb'', call_data = ''0x'', call_value = JUndefined \<rparr>]
    = Inr \<lparr> avgRisk = ''17.50'',
            items = [\<lparr> risk = 25, reasons = [''Token minting'', ''ETH value attached''],
                       selector = ''0x00000000'', target = ''0xaa'' \<rparr>,
                     \<lparr> risk = 10, reasons = [''Unknown selector (not in ABI)''],
                       selector = ''0x'', target = ''0xbb'' \<rparr>] \<rparr> \<and>
   main zero_digest [mint_entry] [] = Inr \<lparr> avgRisk = ''0.00'', items = [] \<rparr>"
proof -
  have a: "main zero_digest [mint_entry]
      [\<lparr> call_to = ''0xaa'', call_data = ''0x00000000ffff'', call_value = JNumber (Finite 1) \<rparr>,
       \<lparr> call_to = ''0xbb'', call_data = ''0x'', call_value = JUndefined \<rparr>]
    = Inr \<lparr> avgRisk = ''17.50'',
            items = [\<lparr> risk = 25, reasons = [''Token minting'', ''ETH value attached''],
                       selector = ''0x00000000'', target = ''0xaa'' \<rparr>,
                     \<lparr> risk = 10, reasons = [''Unknown selector (not in ABI)''],
                       selector = ''0x'', target = ''0xbb'' \<rparr>] \<rparr>"
    by code_simp
  have b: "main zero_digest [mint_entry] [] = Inr \<lparr> avgRisk = ''0.00'', items = [] \<rparr>"
    by code_simp
  from report_contents [OF a] a b show ?thesis by simp
qed

end
